theory Spec2Isabelle
  imports Main
begin

section \<open>Values, the store and the path tracker\<close>

text \<open>
  The validated data are JavaScript values. Primitives are values of their own; an object
  or an array is a reference into a store, so that two occurrences of the same object are
  the same address and a write through one is seen through the other. Numbers are
  modelled as integers (the rules of \<^verbatim>\<open>validator.ts\<close> never compute with them).

  A stored object is the list of its own enumerable properties in the order in which
  \<^verbatim>\<open>for (key in obj)\<close> visits them; a stored array is the list of its elements
  (no holes). The store is a list of such containers: an address is an index into it, and
  allocating (\<^verbatim>\<open>{}\<close>, \<^verbatim>\<open>[]\<close>) appends.
\<close>

type_synonym addr = nat

datatype jsval =
    Undefined
  | Null
  | Bool bool
  | Num int
  | Str string
  | Ref addr

datatype hobj =
    HObj "(string \<times> jsval) list"
  | HArr "jsval list"

type_synonym heap = "hobj list"

text \<open>
  \<^verbatim>\<open>const scopeStack: (string | number)[] = []\<close>: a path segment is a property name
  (or scope label) or an array index.
\<close>

datatype seg = SegStr string | SegNum nat

text \<open>
  \<^verbatim>\<open>Validator.ErrorInvalid\<close> carries its message only. \<open>TypeError\<close> is the error of the
  runtime when a value that is no function is called or a property of \<^verbatim>\<open>undefined\<close> is
  read.
\<close>

datatype error = ErrorInvalid string | TypeError

text \<open>
  The mutable state a call can touch: the module-wide \<^verbatim>\<open>scopeStack\<close> and the store.
  A function of the source that may throw returns \<open>Inl\<close> of the error or \<open>Inr\<close> of its
  value, together with the state it leaves behind.
\<close>

record state =
  scopeStack :: "seg list"
  heap :: heap

type_synonym 'a result = "(error + 'a) \<times> state"

text \<open>
  \<^verbatim>\<open>Sanitizer<T> = { before?: TransformFunc<T>, after?: TransformFunc<T> }\<close> and
  \<^verbatim>\<open>Rule<T> = { 0: string, 1: ValidateFunc<T>, 2?: Sanitizer<T> }\<close>.
  The callbacks a user supplies (predicates, sanitizers, plain transform functions) are
  total functions that may read the store and neither write to it nor throw.

  A value of the type \<^verbatim>\<open>Rule<T>\<close> is an array, \<^verbatim>\<open>[description, predicate]\<close> or
  \<^verbatim>\<open>[description, predicate, sanitizer]\<close> (the form in which the module writes its own
  rules), or a plain object with the keys 0, 1 and 2. The reads \<^verbatim>\<open>rule[0]\<close>,
  \<^verbatim>\<open>rule[1]\<close> and \<^verbatim>\<open>rule[2]\<close> do not tell the two forms apart;
  \<^verbatim>\<open>Array.prototype.concat\<close> does. \<open>third\<close> is the third element of an array rule:
  absent (an array of two elements), or present and then \<^verbatim>\<open>undefined\<close> or a sanitizer.
\<close>

record sanitizer =
  before :: "(heap \<Rightarrow> jsval \<Rightarrow> jsval) option"
  after :: "(heap \<Rightarrow> jsval \<Rightarrow> jsval) option"

datatype third = NoThird | Third "sanitizer option"

datatype rule =
    ArrayRule (desc: string) (vfunc: "heap \<Rightarrow> jsval \<Rightarrow> bool") (third: third)
  | ObjectRule (desc: string) (vfunc: "heap \<Rightarrow> jsval \<Rightarrow> bool") (slot2: "sanitizer option")

text \<open>\<^verbatim>\<open>rule[2]\<close>\<close>

fun sfunc :: "rule \<Rightarrow> sanitizer option" where
  "sfunc (ArrayRule d f NoThird) = None"
| "sfunc (ArrayRule d f (Third s)) = s"
| "sfunc (ObjectRule d f s) = s"

text \<open>
  An element of the array \<^verbatim>\<open>extraRules\<close>. The array starts empty and grows by
  \<^verbatim>\<open>concat\<close> only, so an element is a rule or one of the elements of an array rule that
  \<^verbatim>\<open>concat\<close> has spread: the description, the predicate, the sanitizer or
  \<^verbatim>\<open>undefined\<close>.
\<close>

datatype entry =
    RuleEntry rule
  | StringEntry string
  | FunctionEntry "heap \<Rightarrow> jsval \<Rightarrow> bool"
  | SanitizerEntry sanitizer
  | UndefinedEntry

text \<open>
  \<^verbatim>\<open>class Validator\<close> with its three fields, the three transformer classes, and
  \<^verbatim>\<open>PropertyRule<T> = Rule<T> | Validator<T> | TransformFunc<T>\<close>. The rule map of an
  \<^verbatim>\<open>ObjectTransformer\<close> is the list of its own properties in enumeration order.
\<close>

datatype validator =
    Validator (rule: rule) (transformer: "transformer option") (extraRules: "entry list")
and transformer =
    ObjectTransformer "(string \<times> propertyRule) list"
  | IndexedObjectTransformer propertyRule
  | ArrayTransformer propertyRule
and propertyRule =
    PRule rule
  | PValidator validator
  | PFunc "heap \<Rightarrow> jsval \<Rightarrow> jsval"

subsection \<open>Rendering numbers and paths\<close>

text \<open>The template literal \<^verbatim>\<open>`[${v}]`\<close> prints an index in decimal.\<close>

definition digitChar :: "nat \<Rightarrow> char" where
  "digitChar d = ''0123456789'' ! d"

fun showNat :: "nat \<Rightarrow> string" where
  "showNat n = (if n < 10 then [digitChar n] else showNat (n div 10) @ [digitChar (n mod 10)])"

text \<open>\<^verbatim>\<open>scopeStack.push(v)\<close> appends, \<^verbatim>\<open>scopeStack.pop()\<close> drops the last element
  (and does nothing on an empty array).\<close>

definition push :: "seg \<Rightarrow> state \<Rightarrow> state" where
  "push v st = st\<lparr>scopeStack := scopeStack st @ [v]\<rparr>"

definition pop :: "state \<Rightarrow> state" where
  "pop st = st\<lparr>scopeStack := butlast (scopeStack st)\<rparr>"

text \<open>
  \<^verbatim>\<open>
  function raiseError(desc: string, prefix?: string) {
      const fullScope = scopeStack.map((v, i) => {
          let str: string
          if (typeof v === 'number')
              str = `[${v}]`
          else {
              str = v
              if (i !== 0)
                  str = '.' + str
          }
          return str
      }).join('')
      prefix = prefix || 'requires'
      throw new Validator.ErrorInvalid(`${fullScope}: ${prefix} ${desc}`)
  }
  \<close>
  \<open>segStr\<close> is the callback of \<^verbatim>\<open>map\<close>. The operator \<^verbatim>\<open>||\<close> takes its right
  operand when the left one is falsy: \<^verbatim>\<open>undefined\<close> and the empty string.
\<close>

definition segStr :: "seg \<Rightarrow> nat \<Rightarrow> string" where
  "segStr v i =
     (case v of
        SegNum n \<Rightarrow> ''['' @ showNat n @ '']''
      | SegStr s \<Rightarrow> (if i \<noteq> 0 then ''.'' @ s else s))"

definition fullScope :: "seg list \<Rightarrow> string" where
  "fullScope stack = concat (map (\<lambda>(i, v). segStr v i) (enumerate 0 stack))"

definition raiseError :: "string \<Rightarrow> string option \<Rightarrow> state \<Rightarrow> 'a result" where
  "raiseError description prefix st =
     (let prefix' = (case prefix of
                       None \<Rightarrow> ''requires''
                     | Some p \<Rightarrow> (if p = [] then ''requires'' else p))
      in (Inl (ErrorInvalid
                 (fullScope (scopeStack st) @ '': '' @ prefix' @ '' '' @ description)), st))"

subsection \<open>Executing one rule\<close>

text \<open>
  \<^verbatim>\<open>
  function performRule<T>(value: T, rule: Validator.Rule<T>,
                          transformer?: Validator.TransformFunc<T>): T {
      const desc = rule[0]
      const vfunc = rule[1]
      const sfunc = rule[2]
      if (sfunc && sfunc.before)
          value = sfunc.before(value)
      if (!vfunc(value))
          raiseError(desc)
      if (transformer)
          value = transformer(value)
      if (sfunc && sfunc.after)
          value = sfunc.after(value)
      return value
  }
  \<close>
  The transform callback is the one argument that runs code of this module (a
  transformer's \<^verbatim>\<open>process\<close>), so it takes and returns the state and may fail.
\<close>

definition performRule ::
  "jsval \<Rightarrow> rule \<Rightarrow> (jsval \<Rightarrow> state \<Rightarrow> jsval result) option \<Rightarrow> state \<Rightarrow> jsval result" where
  "performRule value r transformer' st =
     (let value1 = (case sfunc r of
                      Some s \<Rightarrow> (case before s of Some f \<Rightarrow> f (heap st) value | None \<Rightarrow> value)
                    | None \<Rightarrow> value)
      in if \<not> vfunc r (heap st) value1 then raiseError (desc r) None st
         else (case (case transformer' of
                       Some t \<Rightarrow> t value1 st
                     | None \<Rightarrow> (Inr value1, st)) of
                 (Inl e, st') \<Rightarrow> (Inl e, st')
               | (Inr value2, st') \<Rightarrow>
                   (Inr (case sfunc r of
                           Some s \<Rightarrow>
                             (case after s of Some g \<Rightarrow> g (heap st') value2 | None \<Rightarrow> value2)
                         | None \<Rightarrow> value2), st')))"

text \<open>
  \<^verbatim>\<open>performRule(value, r)\<close> for an element \<open>r\<close> of \<^verbatim>\<open>extraRules\<close>. On a rule it is
  \<open>performRule\<close> with no callback. On a string, \<^verbatim>\<open>rule[1]\<close> is a character or
  \<^verbatim>\<open>undefined\<close> and \<^verbatim>\<open>rule[2].before\<close> is \<^verbatim>\<open>undefined\<close>, so the first thing that
  happens is the call \<^verbatim>\<open>vfunc(value)\<close> of a value that is no function; on a function or
  a sanitizer object, \<^verbatim>\<open>rule[1]\<close> and \<^verbatim>\<open>rule[2]\<close> are \<^verbatim>\<open>undefined\<close> and the same
  call fails; on \<^verbatim>\<open>undefined\<close> the read \<^verbatim>\<open>rule[0]\<close> fails. Each time a
  \<open>TypeError\<close> is thrown before anything else is done.
\<close>

fun performEntry :: "jsval \<Rightarrow> entry \<Rightarrow> state \<Rightarrow> jsval result" where
  "performEntry value (RuleEntry r) st = performRule value r None st"
| "performEntry value (StringEntry s) st = (Inl TypeError, st)"
| "performEntry value (FunctionEntry f) st = (Inl TypeError, st)"
| "performEntry value (SanitizerEntry s) st = (Inl TypeError, st)"
| "performEntry value UndefinedEntry st = (Inl TypeError, st)"

text \<open>\<^verbatim>\<open>this.extraRules.forEach(r => { value = performRule(value, r) })\<close>\<close>

fun forEachExtra :: "entry list \<Rightarrow> jsval \<Rightarrow> state \<Rightarrow> jsval result" where
  "forEachExtra [] value st = (Inr value, st)"
| "forEachExtra (r # rs) value st =
     (case performEntry value r st of
        (Inl e, st') \<Rightarrow> (Inl e, st')
      | (Inr value', st') \<Rightarrow> forEachExtra rs value' st')"

subsection \<open>Reading and writing containers\<close>

definition lookup :: "heap \<Rightarrow> addr \<Rightarrow> hobj option" where
  "lookup h a = (if a < length h then Some (h ! a) else None)"

text \<open>\<^verbatim>\<open>v instanceof Object\<close> holds of every object and array, \<^verbatim>\<open>v instanceof Array\<close>
  of arrays only.\<close>

definition instanceofObject :: "heap \<Rightarrow> jsval \<Rightarrow> bool" where
  "instanceofObject h v = (case v of Ref _ \<Rightarrow> True | _ \<Rightarrow> False)"

definition instanceofArray :: "heap \<Rightarrow> jsval \<Rightarrow> bool" where
  "instanceofArray h v =
     (case v of
        Ref a \<Rightarrow> (case lookup h a of Some (HArr _) \<Rightarrow> True | _ \<Rightarrow> False)
      | _ \<Rightarrow> False)"

text \<open>The keys \<^verbatim>\<open>for (let key in obj)\<close> visits: the property names of an object, the
  indices of an array as decimal strings.\<close>

definition keysOf :: "heap \<Rightarrow> jsval \<Rightarrow> string list" where
  "keysOf h v =
     (case v of
        Ref a \<Rightarrow>
          (case lookup h a of
             Some (HObj props) \<Rightarrow> map fst props
           | Some (HArr elems) \<Rightarrow> map showNat [0..<length elems]
           | None \<Rightarrow> [])
      | _ \<Rightarrow> [])"

definition arrayLength :: "heap \<Rightarrow> jsval \<Rightarrow> nat" where
  "arrayLength h v =
     (case v of
        Ref a \<Rightarrow> (case lookup h a of Some (HArr elems) \<Rightarrow> length elems | _ \<Rightarrow> 0)
      | _ \<Rightarrow> 0)"

text \<open>The element \<^verbatim>\<open>forEach\<close> hands to its callback at index \<open>i\<close>.\<close>

definition getIndex :: "heap \<Rightarrow> jsval \<Rightarrow> nat \<Rightarrow> jsval" where
  "getIndex h v i =
     (case v of
        Ref a \<Rightarrow>
          (case lookup h a of
             Some (HArr elems) \<Rightarrow> (if i < length elems then elems ! i else Undefined)
           | _ \<Rightarrow> Undefined)
      | _ \<Rightarrow> Undefined)"

text \<open>
  \<^verbatim>\<open>obj[key]\<close> on the validated value: the own property, and \<^verbatim>\<open>undefined\<close> when
  there is none. (Members that the value would inherit from a built-in prototype are
  functions, which are no values of this model; they are read only when a schema declares
  a key of that name.)
\<close>

definition getProp :: "heap \<Rightarrow> jsval \<Rightarrow> string \<Rightarrow> jsval" where
  "getProp h v key =
     (case v of
        Ref a \<Rightarrow>
          (case lookup h a of
             Some (HObj props) \<Rightarrow> (case map_of props key of Some x \<Rightarrow> x | None \<Rightarrow> Undefined)
           | Some (HArr elems) \<Rightarrow>
               (if key = ''length'' then Num (int (length elems))
                else (case find (\<lambda>i. showNat i = key) [0..<length elems] of
                        Some i \<Rightarrow> elems ! i
                      | None \<Rightarrow> Undefined))
           | None \<Rightarrow> Undefined)
      | _ \<Rightarrow> Undefined)"

text \<open>\<^verbatim>\<open>copy[key] = x\<close> on an object replaces the property or adds it last;
  \<^verbatim>\<open>copy[i] = x\<close> on an array replaces the element or extends the array up to \<open>i\<close>.\<close>

fun upsert :: "(string \<times> jsval) list \<Rightarrow> string \<Rightarrow> jsval \<Rightarrow> (string \<times> jsval) list" where
  "upsert [] key x = [(key, x)]"
| "upsert ((k, y) # props) key x =
     (if k = key then (k, x) # props else (k, y) # upsert props key x)"

definition setProp :: "addr \<Rightarrow> string \<Rightarrow> jsval \<Rightarrow> state \<Rightarrow> state" where
  "setProp a key x st =
     (case lookup (heap st) a of
        Some (HObj props) \<Rightarrow> st\<lparr>heap := (heap st)[a := HObj (upsert props key x)]\<rparr>
      | _ \<Rightarrow> st)"

definition setIndex :: "addr \<Rightarrow> nat \<Rightarrow> jsval \<Rightarrow> state \<Rightarrow> state" where
  "setIndex a i x st =
     (case lookup (heap st) a of
        Some (HArr elems) \<Rightarrow>
          st\<lparr>heap := (heap st)[a := HArr (if i < length elems then elems[i := x]
                                         else elems @ replicate (i - length elems) Undefined
                                                @ [x])]\<rparr>
      | _ \<Rightarrow> st)"

definition alloc :: "hobj \<Rightarrow> state \<Rightarrow> addr \<times> state" where
  "alloc obj st = (length (heap st), st\<lparr>heap := heap st @ [obj]\<rparr>)"

subsection \<open>The unknown-key scan\<close>

text \<open>
  \<^verbatim>\<open>
  for (let key in obj) {
      if (!this.propRules[key])
          raiseError(`'${key}'`, 'unknown property')
  }
  \<close>
  \<^verbatim>\<open>this.propRules\<close> is the object literal handed to \<^verbatim>\<open>Validator.object\<close>. The
  property read \<^verbatim>\<open>this.propRules[key]\<close> follows the prototype chain: it yields the
  declared rule (a tuple, a Validator or a function, all truthy) when the schema declares
  \<open>key\<close>, the member of \<^verbatim>\<open>Object.prototype\<close> of that name (a function or an object,
  truthy as well) when there is one, and \<^verbatim>\<open>undefined\<close> otherwise.
\<close>

definition objectPrototypeKeys :: "string list" where
  "objectPrototypeKeys =
     [''constructor'', ''hasOwnProperty'', ''isPrototypeOf'', ''propertyIsEnumerable'',
      ''toLocaleString'', ''toString'', ''valueOf'', ''__proto__'',
      ''__defineGetter__'', ''__defineSetter__'', ''__lookupGetter__'', ''__lookupSetter__'']"

definition propRuleTruthy :: "(string \<times> propertyRule) list \<Rightarrow> string \<Rightarrow> bool" where
  "propRuleTruthy propRules key =
     (map_of propRules key \<noteq> None \<or> key \<in> set objectPrototypeKeys)"

fun checkKeys :: "(string \<times> propertyRule) list \<Rightarrow> string list \<Rightarrow> state \<Rightarrow> unit result" where
  "checkKeys propRules [] st = (Inr (), st)"
| "checkKeys propRules (key # keys) st =
     (if \<not> propRuleTruthy propRules key
      then raiseError ([CHR 0x27] @ key @ [CHR 0x27]) (Some ''unknown property'') st
      else checkKeys propRules keys st)"

subsection \<open>Validator.run and the transformers\<close>

text \<open>\<^verbatim>\<open>if (scope)\<close>: an absent scope and the empty string are falsy.\<close>

definition truthyScope :: "string option \<Rightarrow> bool" where
  "truthyScope scope = (case scope of Some s \<Rightarrow> s \<noteq> [] | None \<Rightarrow> False)"

text \<open>
  \<^verbatim>\<open>
  run(value: T, scope?: string): T {
      if (scope)
          scopeStack.push(scope)
      try {
          value = performRule(value, this.rule, v => {
              if (this.transformer)
                  return this.transformer.process(v)
              return v
          })
          this.extraRules.forEach(r => {
              value = performRule(value, r)
          })
          return value
      } finally {
          if (scope)
              scopeStack.pop()
      }
  }
  \<close>
  and, in \<^verbatim>\<open>ObjectTransformer.process\<close> after the unknown-key scan (the two other
  transformers have the same loop body, over the keys, or the indices, of the input):
  \<^verbatim>\<open>
  const copy = <T>{}
  for (let key in this.propRules) {
      scopeStack.push(key)
      try {
          copy[key] = performPropRule(obj[key], this.propRules[key])
      } finally {
          scopeStack.pop()
      }
  }
  return copy
  \<close>
  \<open>objectProps\<close>, \<open>indexedProps\<close> and \<open>arrayElems\<close> are the three loops; \<open>copy\<close> is the
  address of the container allocated before the loop. A \<^verbatim>\<open>finally\<close> block is the
  \<open>pop\<close> applied to the state on both branches. \<open>performPropRule\<close> dispatches on the
  kind of the property rule, as the \<^verbatim>\<open>instanceof\<close> chain does.
\<close>

function
  run :: "validator \<Rightarrow> jsval \<Rightarrow> string option \<Rightarrow> state \<Rightarrow> jsval result"
and process :: "transformer \<Rightarrow> jsval \<Rightarrow> state \<Rightarrow> jsval result"
and objectProps ::
  "(string \<times> propertyRule) list \<Rightarrow> jsval \<Rightarrow> addr \<Rightarrow> state \<Rightarrow> unit result"
and indexedProps ::
  "propertyRule \<Rightarrow> string list \<Rightarrow> jsval \<Rightarrow> addr \<Rightarrow> state \<Rightarrow> unit result"
and arrayElems ::
  "propertyRule \<Rightarrow> nat list \<Rightarrow> jsval \<Rightarrow> addr \<Rightarrow> state \<Rightarrow> unit result"
and performPropRule :: "jsval \<Rightarrow> propertyRule \<Rightarrow> state \<Rightarrow> jsval result"
where
  "run v value scope st =
     (let st1 = (if truthyScope scope then push (SegStr (the scope)) st else st)
      in (case (case performRule value (rule v)
                       (Some (\<lambda>x s. (case transformer v of
                                        Some t \<Rightarrow> process t x s
                                      | None \<Rightarrow> (Inr x, s)))) st1 of
                  (Inl e, st2) \<Rightarrow> (Inl e, st2)
                | (Inr value1, st2) \<Rightarrow> forEachExtra (extraRules v) value1 st2) of
            (res, st3) \<Rightarrow> (res, if truthyScope scope then pop st3 else st3)))"
| "process (ObjectTransformer propRules) obj st =
     (if instanceofObject (heap st) obj then
        (case checkKeys propRules (keysOf (heap st) obj) st of
           (Inl e, st1) \<Rightarrow> (Inl e, st1)
         | (Inr _, st1) \<Rightarrow>
             (case alloc (HObj []) st1 of
                (copy, st2) \<Rightarrow>
                  (case objectProps propRules obj copy st2 of
                     (Inl e, st3) \<Rightarrow> (Inl e, st3)
                   | (Inr _, st3) \<Rightarrow> (Inr (Ref copy), st3))))
      else (Inr obj, st))"
| "process (IndexedObjectTransformer childRule) obj st =
     (if instanceofObject (heap st) obj then
        (case alloc (HObj []) st of
           (copy, st1) \<Rightarrow>
             (case indexedProps childRule (keysOf (heap st1) obj) obj copy st1 of
                (Inl e, st2) \<Rightarrow> (Inl e, st2)
              | (Inr _, st2) \<Rightarrow> (Inr (Ref copy), st2)))
      else (Inr obj, st))"
| "process (ArrayTransformer childRule) array st =
     (if instanceofArray (heap st) array then
        (case alloc (HArr []) st of
           (copy, st1) \<Rightarrow>
             (case arrayElems childRule [0..<arrayLength (heap st1) array] array copy st1 of
                (Inl e, st2) \<Rightarrow> (Inl e, st2)
              | (Inr _, st2) \<Rightarrow> (Inr (Ref copy), st2)))
      else (Inr array, st))"
| "objectProps [] obj copy st = (Inr (), st)"
| "objectProps ((key, propRule) # rest) obj copy st =
     (case performPropRule (getProp (heap st) obj key) propRule (push (SegStr key) st) of
        (Inl e, st1) \<Rightarrow> (Inl e, pop st1)
      | (Inr x, st1) \<Rightarrow> objectProps rest obj copy (pop (setProp copy key x st1)))"
| "indexedProps childRule [] obj copy st = (Inr (), st)"
| "indexedProps childRule (key # keys) obj copy st =
     (case performPropRule (getProp (heap st) obj key) childRule (push (SegStr key) st) of
        (Inl e, st1) \<Rightarrow> (Inl e, pop st1)
      | (Inr x, st1) \<Rightarrow> indexedProps childRule keys obj copy (pop (setProp copy key x st1)))"
| "arrayElems childRule [] array copy st = (Inr (), st)"
| "arrayElems childRule (i # is) array copy st =
     (case performPropRule (getIndex (heap st) array i) childRule (push (SegNum i) st) of
        (Inl e, st1) \<Rightarrow> (Inl e, pop st1)
      | (Inr x, st1) \<Rightarrow> arrayElems childRule is array copy (pop (setIndex copy i x st1)))"
| "performPropRule pv (PValidator v) st = run v pv None st"
| "performPropRule pv (PFunc f) st = (Inr (f (heap st) pv), st)"
| "performPropRule pv (PRule r) st = performRule pv r None st"
  by pat_completeness auto

text \<open>
  Every call descends in the schema (a validator, its transformer, the transformer's
  property rules), and a loop over the keys or indices of the input keeps its child rule
  and shortens its list: the functions are total.
\<close>

termination
proof (relation "inv_image (less_than <*lex*> less_than)
    (\<lambda>x. case x of
       Inl (Inl (v, _)) \<Rightarrow> (size v, 0)
     | Inl (Inr (Inl (t, _))) \<Rightarrow> (size t, 0)
     | Inl (Inr (Inr (ps, _))) \<Rightarrow> (size_list (size_prod (\<lambda>_. 0) size) ps, 0)
     | Inr (Inl (cr, keys, _)) \<Rightarrow> (size cr, Suc (length keys))
     | Inr (Inr (Inl (cr, idxs, _))) \<Rightarrow> (size cr, Suc (length idxs))
     | Inr (Inr (Inr (_, pr, _))) \<Rightarrow> (size pr, 0))", goal_cases)
  case 1
  show ?case by (intro wf_inv_image wf_lex_prod wf_less_than)
next
  case (2 v "value" scope st x xa xb x2)
  then show ?case by (cases v) simp
qed simp_all

subsection \<open>The combinators\<close>

text \<open>
  \<^verbatim>\<open>
  static regular<T>(rule)  { return new Validator(rule, null, []) }
  static object<T>(propRules) {
      return new Validator<T>(['object', v => v instanceof Object],
                              new ObjectTransformer<T>(propRules), []) }
  forArray() {
      return new Validator<T[]>(['array', v => v instanceof Array],
                                new ArrayTransformer<T>(this), []) }
  forIndexedObject() {
      return new Validator<IndexedObject<T>>(['object', v => v instanceof Object],
                                new IndexedObjectTransformer<T>(this), []) }
  alter(rule) { return new Validator<T>(rule, this.transformer, this.extraRules) }
  nilable() {
      return new Validator<T | undefined | null>([
          this.rule[0],
          v => {
              if (v === null || v === undefined) return true
              return this.rule[1](v)
          },
          this.rule[2]
      ], this.transformer, this.extraRules) }
  extra(rule) {
      return new Validator<T>(this.rule, this.transformer, this.extraRules.concat(rule)) }
  \<close>
\<close>

definition regular :: "rule \<Rightarrow> validator" where
  "regular r = Validator r None []"

definition object :: "(string \<times> propertyRule) list \<Rightarrow> validator" where
  "object propRules =
     Validator (ArrayRule ''object'' instanceofObject NoThird)
       (Some (ObjectTransformer propRules)) []"

definition forArray :: "validator \<Rightarrow> validator" where
  "forArray v =
     Validator (ArrayRule ''array'' instanceofArray NoThird)
       (Some (ArrayTransformer (PValidator v))) []"

definition forIndexedObject :: "validator \<Rightarrow> validator" where
  "forIndexedObject v =
     Validator (ArrayRule ''object'' instanceofObject NoThird)
       (Some (IndexedObjectTransformer (PValidator v))) []"

definition alter :: "validator \<Rightarrow> rule \<Rightarrow> validator" where
  "alter v r = Validator r (transformer v) (extraRules v)"

definition nilable :: "validator \<Rightarrow> validator" where
  "nilable v =
     Validator
       (ArrayRule (desc (rule v))
                  (\<lambda>h x. if x = Null \<or> x = Undefined then True else vfunc (rule v) h x)
                  (Third (sfunc (rule v))))
       (transformer v) (extraRules v)"

text \<open>
  \<^verbatim>\<open>this.extraRules.concat(rule)\<close>: \<^verbatim>\<open>concat\<close> appends the elements of an argument
  that is an array, and an argument that is no array as one element. \<open>concatArg\<close> is what
  a rule contributes: an array rule its two or three elements, an object rule itself.
\<close>

fun concatArg :: "rule \<Rightarrow> entry list" where
  "concatArg (ArrayRule d f NoThird) = [StringEntry d, FunctionEntry f]"
| "concatArg (ArrayRule d f (Third None)) = [StringEntry d, FunctionEntry f, UndefinedEntry]"
| "concatArg (ArrayRule d f (Third (Some s))) =
     [StringEntry d, FunctionEntry f, SanitizerEntry s]"
| "concatArg (ObjectRule d f s) = [RuleEntry (ObjectRule d f s)]"

definition extra :: "validator \<Rightarrow> rule \<Rightarrow> validator" where
  "extra v r = Validator (rule v) (transformer v) (extraRules v @ concatArg r)"

section \<open>Definitions used to state the properties\<close>

subsection \<open>The try block of run\<close>

text \<open>
  \<open>runBody\<close> is the body of the \<^verbatim>\<open>try\<close> block of \<^verbatim>\<open>Validator.run\<close>: the primary
  rule with the transformer as its callback, then the extra rules. \<open>run\<close> is this block
  between the push and the pop of the scope label (lemma \<open>run_runBody\<close> below).
\<close>

definition runBody :: "validator \<Rightarrow> jsval \<Rightarrow> state \<Rightarrow> jsval result" where
  "runBody v value st =
     (case performRule value (rule v)
             (Some (\<lambda>x s. (case transformer v of
                              Some t \<Rightarrow> process t x s
                            | None \<Rightarrow> (Inr x, s)))) st of
        (Inl e, st2) \<Rightarrow> (Inl e, st2)
      | (Inr value1, st2) \<Rightarrow> forEachExtra (extraRules v) value1 st2)"

subsection \<open>The path and the rule pipeline as the specification words them\<close>

text \<open>
  The rendering of a path in the words of the specification: the first segment is
  unprefixed, a later string segment is prefixed with a dot, and a numeric segment is
  \<open>[n]\<close> wherever it stands. \<open>renderTail_spec\<close> renders the segments after the first.
\<close>

fun renderTail_spec :: "seg list \<Rightarrow> string" where
  "renderTail_spec [] = []"
| "renderTail_spec (SegNum n # rest) = ''['' @ showNat n @ '']'' @ renderTail_spec rest"
| "renderTail_spec (SegStr s # rest) = ''.'' @ s @ renderTail_spec rest"

fun renderPath_spec :: "seg list \<Rightarrow> string" where
  "renderPath_spec [] = []"
| "renderPath_spec (SegNum n # rest) = ''['' @ showNat n @ '']'' @ renderTail_spec rest"
| "renderPath_spec (SegStr s # rest) = s @ renderTail_spec rest"

text \<open>
  The five steps of rule execution in the words of the specification: (1) the
  before-sanitizer if there is one, (2) the predicate on the sanitized value, with the error
  \<open>requires <description>\<close> when it fails, (3) the transform callback if one was supplied,
  (4) the after-sanitizer if there is one, (5) the final value.
\<close>

definition applyBefore_spec :: "rule \<Rightarrow> heap \<Rightarrow> jsval \<Rightarrow> jsval" where
  "applyBefore_spec r h x =
     (case sfunc r of
        None \<Rightarrow> x
      | Some s \<Rightarrow> (case before s of None \<Rightarrow> x | Some f \<Rightarrow> f h x))"

definition applyAfter_spec :: "rule \<Rightarrow> heap \<Rightarrow> jsval \<Rightarrow> jsval" where
  "applyAfter_spec r h x =
     (case sfunc r of
        None \<Rightarrow> x
      | Some s \<Rightarrow> (case after s of None \<Rightarrow> x | Some g \<Rightarrow> g h x))"

definition performRule_spec ::
  "jsval \<Rightarrow> rule \<Rightarrow> (jsval \<Rightarrow> state \<Rightarrow> jsval result) option \<Rightarrow> state \<Rightarrow> jsval result" where
  "performRule_spec value r cb st =
     (let x1 = applyBefore_spec r (heap st) value
      in if vfunc r (heap st) x1
         then (case cb of
                 None \<Rightarrow> (Inr (applyAfter_spec r (heap st) x1), st)
               | Some t \<Rightarrow>
                   (case t x1 st of
                      (Inl e, st') \<Rightarrow> (Inl e, st')
                    | (Inr x2, st') \<Rightarrow> (Inr (applyAfter_spec r (heap st') x2), st')))
         else (Inl (ErrorInvalid (fullScope (scopeStack st) @ '': requires '' @ desc r)), st))"

subsection \<open>Sharing between the result and the input\<close>

text \<open>
  \<open>handles t h x\<close>: the value \<open>x\<close> passes the \<^verbatim>\<open>instanceof\<close> guard of the
  \<^verbatim>\<open>process\<close> method of \<open>t\<close>, so that \<open>t\<close> builds a copy instead of returning \<open>x\<close>.
\<close>

definition handles :: "transformer \<Rightarrow> heap \<Rightarrow> jsval \<Rightarrow> bool" where
  "handles t h x =
     (case t of
        ObjectTransformer _ \<Rightarrow> instanceofObject h x
      | IndexedObjectTransformer _ \<Rightarrow> instanceofObject h x
      | ArrayTransformer _ \<Rightarrow> instanceofArray h x)"

definition isPrimitive :: "jsval \<Rightarrow> bool" where
  "isPrimitive x = (case x of Ref _ \<Rightarrow> False | _ \<Rightarrow> True)"

text \<open>The sanitizer of an element of \<^verbatim>\<open>extraRules\<close>, if the element is a rule that has one.\<close>

definition entrySanitizer :: "entry \<Rightarrow> sanitizer option" where
  "entrySanitizer e = (case e of RuleEntry r \<Rightarrow> sfunc r | _ \<Rightarrow> None)"

text \<open>
  \<open>returnsAsIs pr x\<close>: the property rule \<open>pr\<close> gives back the value \<open>x\<close> itself, in every
  state. A plain rule without sanitizer, and a validator without transformer, sanitizer
  and extra rules, do so on every value their predicate accepts.
\<close>

definition returnsAsIs :: "propertyRule \<Rightarrow> jsval \<Rightarrow> bool" where
  "returnsAsIs pr x = (\<forall>st. performPropRule x pr st = (Inr x, st))"

text \<open>\<open>acceptsNull h e\<close>: the element \<open>e\<close> of \<^verbatim>\<open>extraRules\<close> is a rule without sanitizer
  whose predicate holds of \<^verbatim>\<open>null\<close>.\<close>

definition acceptsNull :: "heap \<Rightarrow> entry \<Rightarrow> bool" where
  "acceptsNull h e =
     (case e of RuleEntry r \<Rightarrow> sfunc r = None \<and> vfunc r h Null | _ \<Rightarrow> False)"

text \<open>
  A schema that copies at every level: no rule has a sanitizer; a validator with a
  transformer accepts a container only if its transformer handles it; and a leaf (a
  validator without transformer, a plain rule, a plain transform function) yields
  primitives only.
\<close>

fun copiesV :: "validator \<Rightarrow> bool"
and copiesT :: "transformer \<Rightarrow> bool"
and copiesP :: "propertyRule \<Rightarrow> bool" where
  "copiesV (Validator r topt es) =
     (sfunc r = None \<and> (\<forall>e\<in>set es. entrySanitizer e = None) \<and>
      (case topt of
         None \<Rightarrow> (\<forall>h x. vfunc r h x \<longrightarrow> isPrimitive x)
       | Some t \<Rightarrow> (\<forall>h x. vfunc r h x \<longrightarrow> isPrimitive x \<or> handles t h x) \<and> copiesT t))"
| "copiesT (ObjectTransformer ps) = (\<forall>kp\<in>set ps. copiesP (snd kp))"
| "copiesT (IndexedObjectTransformer p) = copiesP p"
| "copiesT (ArrayTransformer p) = copiesP p"
| "copiesP (PRule r) = (sfunc r = None \<and> (\<forall>h x. vfunc r h x \<longrightarrow> isPrimitive x))"
| "copiesP (PValidator v) = copiesV v"
| "copiesP (PFunc f) = (\<forall>h x. isPrimitive (f h x))"

text \<open>
  \<open>reaches h x b\<close>: the container at address \<open>b\<close> is \<open>x\<close> itself or is found by following
  properties and elements from \<open>x\<close> in the store \<open>h\<close>.
\<close>

definition valuesOf :: "hobj \<Rightarrow> jsval set" where
  "valuesOf c = (case c of HObj props \<Rightarrow> snd ` set props | HArr elems \<Rightarrow> set elems)"

inductive reaches :: "heap \<Rightarrow> jsval \<Rightarrow> addr \<Rightarrow> bool" where
  here: "reaches h (Ref a) a"
| step: "lookup h a = Some c \<Longrightarrow> x \<in> valuesOf c \<Longrightarrow> reaches h x b \<Longrightarrow> reaches h (Ref a) b"

text \<open>
  The invariants of the proofs about the store, for a bound \<open>n\<close> (the size of the store
  when the call starts): \<open>keepsBelow\<close> says that a step only extends the store and leaves
  the containers below \<open>n\<close> as they were; \<open>good\<close> says that the containers from \<open>n\<close> on
  hold primitives and references from \<open>n\<close> on only.
\<close>

definition keepsBelow :: "nat \<Rightarrow> state \<Rightarrow> state \<Rightarrow> bool" where
  "keepsBelow n st st' =
     (length (heap st) \<le> length (heap st') \<and> (\<forall>a<n. heap st' ! a = heap st ! a))"

definition clean :: "nat \<Rightarrow> jsval \<Rightarrow> bool" where
  "clean n x = (case x of Ref a \<Rightarrow> n \<le> a | _ \<Rightarrow> True)"

definition closedAbove :: "nat \<Rightarrow> heap \<Rightarrow> bool" where
  "closedAbove n h = (\<forall>c<length h. n \<le> c \<longrightarrow> (\<forall>x\<in>valuesOf (h ! c). clean n x))"

definition good :: "nat \<Rightarrow> state \<Rightarrow> bool" where
  "good n st = (n \<le> length (heap st) \<and> closedAbove n (heap st))"

subsection \<open>Rules and schemas of the examples\<close>

text \<open>
  \<^verbatim>\<open>v => typeof v === "string"\<close>, \<^verbatim>\<open>v => typeof v === "number"\<close>, and a predicate that
  is \<^verbatim>\<open>v => v > 0\<close> on numbers (and rejects what is not a number).
\<close>

definition typeofString :: "heap \<Rightarrow> jsval \<Rightarrow> bool" where
  "typeofString h v = (case v of Str _ \<Rightarrow> True | _ \<Rightarrow> False)"

definition typeofNumber :: "heap \<Rightarrow> jsval \<Rightarrow> bool" where
  "typeofNumber h v = (case v of Num _ \<Rightarrow> True | _ \<Rightarrow> False)"

definition positiveNumber :: "heap \<Rightarrow> jsval \<Rightarrow> bool" where
  "positiveNumber h v = (case v of Num n \<Rightarrow> 0 < n | _ \<Rightarrow> False)"

text \<open>The rules of the examples as arrays, \<^verbatim>\<open>['string', v => typeof v === "string"]\<close>
  and so on, and a rule that accepts everything as a plain object,
  \<^verbatim>\<open>{0: 'anything', 1: v => true}\<close>.\<close>

definition stringRule :: rule where
  "stringRule = ArrayRule ''string'' typeofString NoThird"

definition numberRule :: rule where
  "numberRule = ArrayRule ''number'' typeofNumber NoThird"

definition positiveRule :: rule where
  "positiveRule = ArrayRule ''positive'' positiveNumber NoThird"

definition anyRule :: rule where
  "anyRule = ObjectRule ''anything'' (\<lambda>h x. True) None"

text \<open>
  \<^verbatim>\<open>Validator.object({user: Validator.object({name: Validator.regular(
     ['string', v => typeof v === "string"])})})\<close>
\<close>

definition userSchema :: validator where
  "userSchema =
     object [(''user'', PValidator (object
       [(''name'', PValidator (regular stringRule))]))]"

text \<open>A store holding \<^verbatim>\<open>{user: {name: x}}\<close> at address 0.\<close>

definition userStore :: "jsval \<Rightarrow> heap" where
  "userStore x = [HObj [(''user'', Ref 1)], HObj [(''name'', x)]]"

text \<open>The same store with the array \<^verbatim>\<open>[user, 7]\<close> at address 2, where \<^verbatim>\<open>user\<close> is the
  object at address 1.\<close>

definition sharingStore :: heap where
  "sharingStore = userStore (Str ''Ann'') @ [HArr [Ref 1, Num 7]]"


section \<open>Basic facts\<close>

lemma raiseError_snd [simp]: "snd (raiseError d p st) = st"
  by (simp add: raiseError_def Let_def)

lemma push_stack [simp]: "scopeStack (push v st) = scopeStack st @ [v]"
  by (simp add: push_def)

lemma pop_stack [simp]: "scopeStack (pop st) = butlast (scopeStack st)"
  by (simp add: pop_def)

lemma push_heap [simp]: "heap (push v st) = heap st"
  by (simp add: push_def)

lemma pop_heap [simp]: "heap (pop st) = heap st"
  by (simp add: pop_def)

lemma pop_push [simp]: "pop (push v st) = st"
  by (simp add: pop_def push_def)

lemma setProp_stack [simp]: "scopeStack (setProp a k x st) = scopeStack st"
  by (simp add: setProp_def split: option.splits hobj.splits)

lemma setIndex_stack [simp]: "scopeStack (setIndex a i x st) = scopeStack st"
  by (simp add: setIndex_def split: option.splits hobj.splits)

lemma alloc_stack [simp]: "scopeStack (snd (alloc obj st)) = scopeStack st"
  by (simp add: alloc_def)

lemma lookup_SomeD: "lookup h a = Some x \<Longrightarrow> a < length h \<and> h ! a = x"
  by (auto simp: lookup_def split: if_splits)

lemma lookup_append [simp]: "a < length h \<Longrightarrow> lookup (h @ h') a = lookup h a"
  by (simp add: lookup_def nth_append)

lemma checkKeys_snd [simp]: "snd (checkKeys ps ks st) = st"
  by (induction ks) simp_all

lemma checkKeys_result:
  "checkKeys ps ks st =
     (case find (\<lambda>k. \<not> propRuleTruthy ps k) ks of
        None \<Rightarrow> (Inr (), st)
      | Some k \<Rightarrow> raiseError ([CHR 0x27] @ k @ [CHR 0x27]) (Some ''unknown property'') st)"
  by (induction ks) simp_all

lemma performRule_None_snd [simp]: "snd (performRule value r None st) = st"
  by (simp add: performRule_def Let_def)

lemma performRule_None_sndD: "performRule value r None st = (res, st') \<Longrightarrow> st' = st"
  using performRule_None_snd [of "value" r st] by simp

lemma performRule_eq_spec: "performRule value r cb st = performRule_spec value r cb st"
  by (simp add: performRule_def performRule_spec_def applyBefore_spec_def applyAfter_spec_def
      raiseError_def Let_def split: option.splits prod.splits sum.splits)

lemma performRule_no_sanitizer:
  "sfunc r = None \<Longrightarrow>
     performRule value r (Some cb) st =
       (if vfunc r (heap st) value then cb value st else raiseError (desc r) None st)"
  by (simp add: performRule_def split: prod.splits sum.splits)

lemma performRule_None_no_sanitizer:
  "sfunc r = None \<Longrightarrow>
     performRule value r None st =
       (if vfunc r (heap st) value then (Inr value, st) else raiseError (desc r) None st)"
  by (simp add: performRule_def)

lemma performEntry_snd [simp]: "snd (performEntry value e st) = st"
  by (cases e) simp_all

lemma performEntry_sndD: "performEntry value e st = (res, st') \<Longrightarrow> st' = st"
  using performEntry_snd [of "value" e st] by simp

lemma forEachExtra_snd [simp]: "snd (forEachExtra rs value st) = st"
proof (induction rs arbitrary: "value")
  case Nil
  show ?case by simp
next
  case (Cons r rs)
  show ?case
  proof (cases "performEntry value r st")
    case (Pair res st')
    have "st' = st" using performEntry_sndD [OF Pair] .
    then show ?thesis using Pair Cons.IH by (cases res) simp_all
  qed
qed

lemma forEachExtra_append:
  "forEachExtra (rs @ rs') value st =
     (case forEachExtra rs value st of
        (Inl e, st') \<Rightarrow> (Inl e, st')
      | (Inr value', st') \<Rightarrow> forEachExtra rs' value' st')"
proof (induction rs arbitrary: "value" st)
  case Nil
  show ?case by simp
next
  case (Cons r' rs)
  show ?case by (simp add: Cons.IH split: prod.splits sum.splits)
qed

lemma forEachExtra_accept_null:
  "\<forall>e\<in>set rs. acceptsNull (heap st) e \<Longrightarrow> forEachExtra rs Null st = (Inr Null, st)"
proof (induction rs)
  case Nil
  show ?case by simp
next
  case (Cons e rs)
  then show ?case
    by (cases e) (simp_all add: acceptsNull_def performRule_def)
qed

lemma performEntry_no_sanitizer:
  "entrySanitizer e = None \<Longrightarrow> performEntry x e st = (Inr y, st') \<Longrightarrow> y = x"
  by (cases e) (auto simp: entrySanitizer_def performRule_def raiseError_def split: if_splits)

lemma forEachExtra_no_sanitizer:
  "\<forall>e\<in>set rs. entrySanitizer e = None \<Longrightarrow> forEachExtra rs x st = (Inr y, st') \<Longrightarrow> y = x"
proof (induction rs arbitrary: x st)
  case Nil
  then show ?case by simp
next
  case (Cons e rs)
  obtain res st1 where p: "performEntry x e st = (res, st1)" by (cases "performEntry x e st")
  show ?case
  proof (cases res)
    case (Inl err)
    then show ?thesis using Cons.prems p by simp
  next
    case (Inr x1)
    have "x1 = x" using performEntry_no_sanitizer [of e x st x1 st1] Cons.prems(1) p Inr by simp
    moreover have "forEachExtra rs x1 st1 = (Inr y, st')" using Cons.prems(2) p Inr by simp
    ultimately show ?thesis using Cons.IH [of x1 st1] Cons.prems(1) by simp
  qed
qed

lemma forEachExtra_no_sanitizer_fst:
  "\<forall>e\<in>set rs. entrySanitizer e = None \<Longrightarrow> fst (forEachExtra rs x st) = Inr y \<Longrightarrow> y = x"
  using forEachExtra_no_sanitizer [of rs x st y "snd (forEachExtra rs x st)"]
  by (metis prod.collapse)

lemma process_non_container:
  "\<not> instanceofObject (heap st) x \<Longrightarrow> process t x st = (Inr x, st)"
  by (cases t) (auto simp: instanceofObject_def instanceofArray_def split: jsval.splits)

text \<open>\<open>run\<close> is its try block between the push and the pop of a truthy scope label.\<close>

lemma run_runBody:
  "run v value scope st =
     (if truthyScope scope
      then (fst (runBody v value (push (SegStr (the scope)) st)),
            pop (snd (runBody v value (push (SegStr (the scope)) st))))
      else runBody v value st)"
  by (simp add: runBody_def split: prod.splits)

declare run.simps [simp del]

lemmas eval_defs =
  run_runBody runBody_def performRule_def raiseError_def truthyScope_def
  object_def regular_def forArray_def forIndexedObject_def nilable_def extra_def alter_def
  instanceofObject_def instanceofArray_def keysOf_def getProp_def getIndex_def arrayLength_def
  setProp_def setIndex_def alloc_def lookup_def push_def pop_def
  propRuleTruthy_def objectPrototypeKeys_def fullScope_def segStr_def digitChar_def
  typeofString_def typeofNumber_def positiveNumber_def stringRule_def numberRule_def
  positiveRule_def anyRule_def userSchema_def userStore_def sharingStore_def Let_def

section \<open>The path tracker is balanced\<close>

lemma performRule_stack_Some:
  assumes "\<And>x s. scopeStack (snd (t x s)) = scopeStack s"
  shows "scopeStack (snd (performRule value r (Some t) st)) = scopeStack st"
  using assms [of _ st]
  by (auto simp add: performRule_def Let_def split: prod.splits sum.splits) (metis snd_conv)+

text \<open>
  Each of the six functions leaves the stack as it found it, whatever it returns. The proof
  follows the recursion of the functions: a loop body pushes, calls a function that
  restores the stack by the induction hypothesis, and pops on both branches.
\<close>

lemma stack_balance:
  "scopeStack (snd (run v value scope st)) = scopeStack st"
  "scopeStack (snd (process t x st)) = scopeStack st"
  "scopeStack (snd (objectProps ps obj copy st)) = scopeStack st"
  "scopeStack (snd (indexedProps cr keys obj copy st)) = scopeStack st"
  "scopeStack (snd (arrayElems cr idxs array copy st)) = scopeStack st"
  "scopeStack (snd (performPropRule pv pr st)) = scopeStack st"
proof (induction v "value" scope st and t x st and ps obj copy st and cr keys obj copy st
    and cr idxs array copy st and pv pr st
    rule: run_process_objectProps_indexedProps_arrayElems_performPropRule.induct)
  case (1 v "value" scope st)
  define cb where
    "cb = (\<lambda>x s. case transformer v of Some t \<Rightarrow> process t x s | None \<Rightarrow> (Inr x, s))"
  have cb: "scopeStack (snd (cb x s)) = scopeStack s" for x s
    using 1 by (cases "transformer v") (simp_all add: cb_def)
  have body: "scopeStack (snd (runBody v value s)) = scopeStack s" for s
    using performRule_stack_Some [of cb "value" "rule v" s, OF cb]
    by (auto simp: runBody_def cb_def split: prod.splits sum.splits)
  show ?case unfolding run_runBody by (simp add: body)
next
  case (2 propRules obj st)
  then show ?case
    by (auto simp: alloc_def split: prod.splits sum.splits) (metis checkKeys_snd snd_conv)+
next
  case (3 childRule obj st)
  then show ?case by (auto simp: alloc_def split: prod.splits sum.splits)
next
  case (4 childRule array st)
  then show ?case by (auto simp: alloc_def split: prod.splits sum.splits)
next
  case (5 obj copy st)
  then show ?case by simp
next
  case (6 key propRule rest obj copy st)
  then show ?case by (auto split: prod.splits sum.splits)
next
  case (7 childRule obj copy st)
  then show ?case by simp
next
  case (8 childRule key keys obj copy st)
  then show ?case by (auto split: prod.splits sum.splits)
next
  case (9 childRule array copy st)
  then show ?case by simp
next
  case (10 childRule i idxs array copy st)
  then show ?case by (auto split: prod.splits sum.splits)
next
  case (11 pv v st)
  then show ?case by simp
next
  case (12 pv f st)
  then show ?case by simp
next
  case (13 pv r st)
  then show ?case by simp
qed

lemma runBody_stack: "scopeStack (snd (runBody v value st)) = scopeStack st"
  using stack_balance(1) [of v "value" None st] by (simp add: run_runBody truthyScope_def)

lemma push_pop_runBody:
  "push (SegStr s) (pop (snd (runBody v value (push (SegStr s) st)))) =
     snd (runBody v value (push (SegStr s) st))"
  using runBody_stack [of v "value" "push (SegStr s) st"]
  by (simp add: push_def pop_def)

text \<open>
  C1. For every validator, every input value, every scope argument and every state, the
  path tracker after \<open>run\<close> is the path tracker before it, contents included, whether \<open>run\<close>
  returns a value or raises: every push of a scope label, a property key or an array index
  is undone on every exit path.
\<close>

theorem run_restores_scopeStack:
  "scopeStack (snd (run v value scope st)) = scopeStack st"
  by (rule stack_balance(1))

text \<open>
  An instance: the nested schema fails three levels down (at \<open>outer.root.user.name\<close>), and
  the tracker is back at \<open>[outer]\<close>.
\<close>

theorem run_restores_scopeStack_witness:
  "fst (run userSchema (Ref 0) (Some ''root'')
          \<lparr>scopeStack = [SegStr ''outer''], heap = userStore (Num 123)\<rparr>)
     = Inl (ErrorInvalid ''outer.root.user.name: requires string'')
   \<and> scopeStack (snd (run userSchema (Ref 0) (Some ''root'')
          \<lparr>scopeStack = [SegStr ''outer''], heap = userStore (Num 123)\<rparr>))
     = [SegStr ''outer'']"
proof
  show "fst (run userSchema (Ref 0) (Some ''root'')
          \<lparr>scopeStack = [SegStr ''outer''], heap = userStore (Num 123)\<rparr>)
     = Inl (ErrorInvalid ''outer.root.user.name: requires string'')"
    by (simp add: eval_defs)
  show "scopeStack (snd (run userSchema (Ref 0) (Some ''root'')
          \<lparr>scopeStack = [SegStr ''outer''], heap = userStore (Num 123)\<rparr>))
     = [SegStr ''outer'']"
    using run_restores_scopeStack [of userSchema "Ref 0" "Some ''root''"
        "\<lparr>scopeStack = [SegStr ''outer''], heap = userStore (Num 123)\<rparr>"]
    by simp
qed

section \<open>The unknown property error\<close>

text \<open>
  C2, as the code has it. \<open>Validator.object({a: ruleA}).run({a: 1, b: 2})\<close> raises
  \<open>ErrorInvalid\<close> for every \<open>ruleA\<close>, and the message is the path of the validated object
  itself (empty when the tracker is empty), the prefix \<open>unknown property\<close>, and the
  offending key in quotes as the description: \<open>: unknown property 'b'\<close>. The key is not
  pushed on the path tracker; the state is left as it was.
\<close>

theorem unknown_property_message:
  assumes "lookup (heap st) a = Some (HObj [(''a'', Num 1), (''b'', Num 2)])"
  shows "run (object [(''a'', ruleA)]) (Ref a) None st =
           (Inl (ErrorInvalid (fullScope (scopeStack st) @ '': unknown property ''
                               @ [CHR 0x27, CHR ''b'', CHR 0x27])), st)"
  using assms
  by (simp add: run_runBody runBody_def object_def performRule_def instanceofObject_def
      truthyScope_def keysOf_def propRuleTruthy_def objectPrototypeKeys_def raiseError_def)

theorem unknown_property_message_witness:
  "lookup [HObj [(''a'', Num 1), (''b'', Num 2)]] 0 = Some (HObj [(''a'', Num 1), (''b'', Num 2)])
   \<and> run (object [(''a'', PRule numberRule)]) (Ref 0) None
        \<lparr>scopeStack = [], heap = [HObj [(''a'', Num 1), (''b'', Num 2)]]\<rparr>
     = (Inl (ErrorInvalid ('': unknown property '' @ [CHR 0x27, CHR ''b'', CHR 0x27])),
        \<lparr>scopeStack = [], heap = [HObj [(''a'', Num 1), (''b'', Num 2)]]\<rparr>)"
  using unknown_property_message [of "\<lparr>scopeStack = [], heap = [HObj [(''a'', Num 1), (''b'', Num 2)]]\<rparr>"
      0 "PRule numberRule"]
  by (simp add: lookup_def fullScope_def)

text \<open>
  The claim as stated fails: the message starts with the separator \<open>: \<close>, its path
  component is empty, and it is not the message \<open>b: unknown property 'b'\<close> that an error
  raised at the path \<open>b\<close> carries.
\<close>

theorem unknown_property_path_counterexample:
  "fst (run (object [(''a'', PRule numberRule)]) (Ref 0) None
          \<lparr>scopeStack = [], heap = [HObj [(''a'', Num 1), (''b'', Num 2)]]\<rparr>)
     = Inl (ErrorInvalid ('': unknown property '' @ [CHR 0x27, CHR ''b'', CHR 0x27]))
   \<and> '': unknown property '' @ [CHR 0x27, CHR ''b'', CHR 0x27]
       \<noteq> fullScope [SegStr ''b''] @ '': unknown property '' @ [CHR 0x27, CHR ''b'', CHR 0x27]
   \<and> take 1 ('': unknown property '' @ [CHR 0x27, CHR ''b'', CHR 0x27]) \<noteq> fullScope [SegStr ''b'']"
  by (simp add: eval_defs)

section \<open>The order of the steps of a rule\<close>

text \<open>
  C3. For every value, rule, optional transform callback and state, \<open>performRule\<close> is the
  five steps of the specification in their order: the before-sanitizer if present, the
  predicate on the sanitized value (raising \<open>requires <description>\<close> when it is false,
  before any transform), the transform callback if present, the after-sanitizer if present
  on the transformed value, and the final value.
\<close>

theorem performRule_steps:
  "performRule value r cb st = performRule_spec value r cb st"
  by (rule performRule_eq_spec)

text \<open>
  An instance where the order shows: the before-sanitizer adds 1, the predicate wants a
  positive number, the callback doubles, the after-sanitizer subtracts 10. On 0 the result
  is \<open>(0 + 1) * 2 - 10 = -8\<close>; any other order gives an error or another number.
\<close>

theorem performRule_steps_witness:
  "performRule (Num 0)
     (ArrayRule ''positive'' positiveNumber
        (Third (Some \<lparr>before = Some (\<lambda>h v. case v of Num n \<Rightarrow> Num (n + 1) | _ \<Rightarrow> v),
                      after = Some (\<lambda>h v. case v of Num n \<Rightarrow> Num (n - 10) | _ \<Rightarrow> v)\<rparr>)))
     (Some (\<lambda>v s. (Inr (case v of Num n \<Rightarrow> Num (2 * n) | _ \<Rightarrow> v), s)))
     \<lparr>scopeStack = [], heap = []\<rparr>
   = (Inr (Num (- 8)), \<lparr>scopeStack = [], heap = []\<rparr>)"
  using performRule_steps [of "Num 0"
     "ArrayRule ''positive'' positiveNumber
        (Third (Some \<lparr>before = Some (\<lambda>h v. case v of Num n \<Rightarrow> Num (n + 1) | _ \<Rightarrow> v),
                      after = Some (\<lambda>h v. case v of Num n \<Rightarrow> Num (n - 10) | _ \<Rightarrow> v)\<rparr>))"
     "Some (\<lambda>v s. (Inr (case v of Num n \<Rightarrow> Num (2 * n) | _ \<Rightarrow> v), s))"
     "\<lparr>scopeStack = [], heap = []\<rparr>"]
  by (simp add: performRule_spec_def applyBefore_spec_def applyAfter_spec_def positiveNumber_def)


section \<open>nilable\<close>

text \<open>
  C4. For every validator \<open>v\<close>, the primary predicate of \<open>v.nilable()\<close> holds of \<open>null\<close> and
  \<open>undefined\<close> whatever the predicate of \<open>v\<close> says of them, and is the predicate of \<open>v\<close> on
  every other value; description, sanitizer, transformer and extra rules are those of \<open>v\<close>.
  For every predicate \<open>p\<close>, \<open>Validator.regular(['positive', p]).nilable().run(null)\<close>
  returns \<open>null\<close>, and \<open>run(-1)\<close> raises \<open>requires positive\<close> when \<open>p\<close> rejects \<open>-1\<close>; the
  same holds when the rule is written as a plain object.
\<close>

theorem nilable_spec:
  "vfunc (rule (nilable v)) h Null
   \<and> vfunc (rule (nilable v)) h Undefined
   \<and> (x \<noteq> Null \<and> x \<noteq> Undefined \<longrightarrow> vfunc (rule (nilable v)) h x = vfunc (rule v) h x)
   \<and> desc (rule (nilable v)) = desc (rule v)
   \<and> sfunc (rule (nilable v)) = sfunc (rule v)
   \<and> transformer (nilable v) = transformer v
   \<and> extraRules (nilable v) = extraRules v
   \<and> run (nilable (regular (ArrayRule ''positive'' p NoThird))) Null None st = (Inr Null, st)
   \<and> (\<not> p (heap st) (Num (- 1)) \<longrightarrow>
        run (nilable (regular (ArrayRule ''positive'' p NoThird))) (Num (- 1)) None st
          = (Inl (ErrorInvalid (fullScope (scopeStack st) @ '': requires positive'')), st))
   \<and> run (nilable (regular (ObjectRule ''positive'' p None))) Null None st = (Inr Null, st)
   \<and> (\<not> p (heap st) (Num (- 1)) \<longrightarrow>
        run (nilable (regular (ObjectRule ''positive'' p None))) (Num (- 1)) None st
          = (Inl (ErrorInvalid (fullScope (scopeStack st) @ '': requires positive'')), st))"
  by (simp add: run_runBody runBody_def nilable_def regular_def performRule_def truthyScope_def
      raiseError_def)

text \<open>
  An instance with \<open>v > 0\<close> on numbers, which rejects \<open>null\<close> by itself: the nilable
  validator returns \<open>null\<close>, rejects \<open>-1\<close> and accepts \<open>5\<close> as the original does.
\<close>

theorem nilable_spec_witness:
  "\<not> vfunc (rule (regular positiveRule)) [] Null
   \<and> vfunc (rule (nilable (regular positiveRule))) [] Null
   \<and> vfunc (rule (nilable (regular positiveRule))) [] Undefined
   \<and> Num 5 \<noteq> Null \<and> Num 5 \<noteq> Undefined
   \<and> vfunc (rule (nilable (regular positiveRule))) [] (Num 5)
   \<and> run (nilable (regular (ArrayRule ''positive'' positiveNumber NoThird))) Null None
        \<lparr>scopeStack = [], heap = []\<rparr>
      = (Inr Null, \<lparr>scopeStack = [], heap = []\<rparr>)
   \<and> \<not> positiveNumber [] (Num (- 1))
   \<and> run (nilable (regular (ArrayRule ''positive'' positiveNumber NoThird))) (Num (- 1)) None
        \<lparr>scopeStack = [], heap = []\<rparr>
      = (Inl (ErrorInvalid '': requires positive''), \<lparr>scopeStack = [], heap = []\<rparr>)"
  using nilable_spec [of "regular positiveRule" "[]" "Num 5"
      positiveNumber "\<lparr>scopeStack = [], heap = []\<rparr>"]
  by (simp add: regular_def positiveRule_def positiveNumber_def fullScope_def)

section \<open>Extra rules\<close>

text \<open>
  What \<open>extra\<close> adds to the try block of \<open>run\<close>. A rule given as a plain object is
  executed after everything \<open>v\<close> does, with no callback. A rule given as an array is spread
  by \<^verbatim>\<open>concat\<close>; its description comes first among the new elements, and executing a
  string as a rule throws \<open>TypeError\<close>, so the predicate of the rule is never called.
\<close>

lemma runBody_extra_object:
  "runBody (extra v (ObjectRule d f s)) value st =
     (case runBody v value st of
        (Inl e, st') \<Rightarrow> (Inl e, st')
      | (Inr value', st') \<Rightarrow> performRule value' (ObjectRule d f s) None st')"
  by (simp add: runBody_def extra_def forEachExtra_append split: prod.splits sum.splits)

lemma forEachExtra_concatArg_array:
  "forEachExtra (concatArg (ArrayRule d f t)) value st = (Inl TypeError, st)"
proof (cases t)
  case NoThird
  then show ?thesis by simp
next
  case (Third s)
  then show ?thesis by (cases s) simp_all
qed

lemma runBody_extra_array:
  "runBody (extra v (ArrayRule d f t)) value st =
     (case runBody v value st of
        (Inl e, st') \<Rightarrow> (Inl e, st')
      | (Inr value', st') \<Rightarrow> (Inl TypeError, st'))"
  by (simp add: runBody_def extra_def forEachExtra_append forEachExtra_concatArg_array
      split: prod.splits sum.splits)

lemma run_extra_array:
  "run (extra v (ArrayRule d f t)) value scope st =
     (case run v value scope st of
        (Inl e, st') \<Rightarrow> (Inl e, st')
      | (Inr value', st') \<Rightarrow> (Inl TypeError, st'))"
  by (simp add: run_runBody runBody_extra_array split: prod.splits sum.splits)

lemma run_extra_object:
  "run (extra v (ObjectRule d f s)) value scope st =
     (case run v value scope st of
        (Inl e, st') \<Rightarrow> (Inl e, st')
      | (Inr value', st') \<Rightarrow>
          (case performRule value' (ObjectRule d f s) None
                  (if truthyScope scope then push (SegStr (the scope)) st' else st') of
             (res, st'') \<Rightarrow> (res, if truthyScope scope then pop st'' else st'')))"
proof (cases "truthyScope scope")
  case False
  then show ?thesis
    by (simp add: run_runBody runBody_extra_object split: prod.splits sum.splits)
next
  case True
  obtain res st3 where b: "runBody v value (push (SegStr (the scope)) st) = (res, st3)"
    by (cases "runBody v value (push (SegStr (the scope)) st)")
  have "push (SegStr (the scope)) (pop st3) = st3"
    using push_pop_runBody [of "the scope" v "value" st] b by simp
  then show ?thesis
    using True b
    by (cases res)
      (auto simp add: run_runBody runBody_extra_object split: prod.splits
        dest: performRule_None_sndD)
qed

text \<open>
  C5 fails on the code for a rule written as an array, the form in which the module writes
  its own rules. \<open>Validator.regular(['number', v => typeof v === "number"])
  .extra(['positive', v => v > 0]).run(-3)\<close>: the input passes the type check, and then the
  first element that \<^verbatim>\<open>concat\<close> has added, the string \<open>positive\<close>, is executed as a rule
  and \<open>TypeError\<close> is thrown instead of \<open>requires positive\<close>. With the same extra rule as a
  plain object the error is \<open>requires positive\<close>, as the claim says.
\<close>

theorem extra_array_rule_throws:
  "run (extra (regular numberRule) positiveRule) (Num (- 3)) None \<lparr>scopeStack = [], heap = []\<rparr>
     = (Inl TypeError, \<lparr>scopeStack = [], heap = []\<rparr>)
   \<and> run (regular numberRule) (Num (- 3)) None \<lparr>scopeStack = [], heap = []\<rparr>
     = (Inr (Num (- 3)), \<lparr>scopeStack = [], heap = []\<rparr>)
   \<and> run (extra (regular numberRule) (ObjectRule ''positive'' positiveNumber None)) (Num (- 3)) None
        \<lparr>scopeStack = [], heap = []\<rparr>
     = (Inl (ErrorInvalid '': requires positive''), \<lparr>scopeStack = [], heap = []\<rparr>)"
  by (simp add: eval_defs)

section \<open>The message of raiseError\<close>

lemma renderTail_enumerate:
  "concat (map (\<lambda>(i, v). segStr v i) (enumerate (Suc k) stack)) = renderTail_spec stack"
proof (induction stack arbitrary: k)
  case Nil
  show ?case by simp
next
  case (Cons v stack)
  show ?case using Cons.IH [of "Suc k"] by (cases v) (simp_all add: segStr_def)
qed

lemma fullScope_renderPath: "fullScope stack = renderPath_spec stack"
proof (cases stack)
  case Nil
  then show ?thesis by (simp add: fullScope_def)
next
  case (Cons v rest)
  then show ?thesis
    using renderTail_enumerate [of 0 rest]
    by (cases v) (simp_all add: fullScope_def segStr_def)
qed

text \<open>
  C6. For every path stack and description, and for every prefix that a call passes
  (none, as \<open>performRule\<close> does, or a string that is not empty, as the unknown-key scan
  does with \<open>unknown property\<close>), \<open>raiseError\<close> raises one error and leaves the state as it
  is; the message is the rendered path (first segment unprefixed, later string segments
  prefixed with a dot, numeric segments as \<open>[n]\<close> wherever they stand), then \<open>: \<close>, the
  prefix, a space and the description, where the prefix is \<open>requires\<close> when none is given.
\<close>

theorem raiseError_message:
  assumes "prefix \<noteq> Some []"
  shows "raiseError description prefix st =
     (Inl (ErrorInvalid
             (renderPath_spec (scopeStack st) @ '': ''
              @ (case prefix of None \<Rightarrow> ''requires'' | Some p \<Rightarrow> p)
              @ '' '' @ description)), st)"
  using assms
  by (cases prefix) (simp_all add: raiseError_def Let_def fullScope_renderPath)

text \<open>Two instances: a given prefix under a path of four segments, and the default.\<close>

theorem raiseError_message_witness:
  "Some ''unknown property'' \<noteq> Some []
   \<and> (raiseError ''string'' (Some ''unknown property'')
        \<lparr>scopeStack = [SegStr ''root'', SegNum 12, SegStr ''name'', SegNum 0], heap = []\<rparr>
        :: jsval result) =
       (Inl (ErrorInvalid ''root[12].name[0]: unknown property string''),
        \<lparr>scopeStack = [SegStr ''root'', SegNum 12, SegStr ''name'', SegNum 0], heap = []\<rparr>)
   \<and> (raiseError ''string'' None \<lparr>scopeStack = [SegNum 3, SegStr ''name''], heap = []\<rparr>
        :: jsval result) =
       (Inl (ErrorInvalid ''[3].name: requires string''),
        \<lparr>scopeStack = [SegNum 3, SegStr ''name''], heap = []\<rparr>)"
  using raiseError_message [of "Some ''unknown property''" "''string''"
      "\<lparr>scopeStack = [SegStr ''root'', SegNum 12, SegStr ''name'', SegNum 0], heap = []\<rparr>"]
    raiseError_message [of None "''string''"
      "\<lparr>scopeStack = [SegNum 3, SegStr ''name''], heap = []\<rparr>"]
  by (simp add: digitChar_def)

section \<open>Keys that the schema does not declare\<close>

text \<open>
  What the unknown-key scan gives: the first key of the input for which
  \<^verbatim>\<open>this.propRules[key]\<close> is falsy is reported, in the state as it was on entry, so that
  nothing is allocated and no property rule has run.
\<close>

lemma unknown_key_rejected:
  assumes "instanceofObject (heap st) obj"
    and "find (\<lambda>k. \<not> propRuleTruthy ps k) (keysOf (heap st) obj) = Some k"
  shows "process (ObjectTransformer ps) obj st =
           (Inl (ErrorInvalid (fullScope (scopeStack st) @ '': unknown property ''
                               @ [CHR 0x27] @ k @ [CHR 0x27])), st)"
  using assms by (simp add: checkKeys_result raiseError_def)

text \<open>
  C7 fails on the code for a key that names a member of \<^verbatim>\<open>Object.prototype\<close>.
  \<open>Validator.object({a: ['number', v => typeof v === "number"]}).run({a: 1, toString: 2})\<close>:
  the schema does not declare \<open>toString\<close>, yet \<^verbatim>\<open>this.propRules['toString']\<close> is the
  inherited function, which is truthy, so no error is raised; the rule of \<open>a\<close> runs and the
  call returns the copy \<open>{a: 1}\<close>.
\<close>

theorem inherited_key_not_rejected:
  "run (object [(''a'', PRule numberRule)]) (Ref 0) None
      \<lparr>scopeStack = [], heap = [HObj [(''a'', Num 1), (''toString'', Num 2)]]\<rparr>
   = (Inr (Ref 1),
      \<lparr>scopeStack = [],
        heap = [HObj [(''a'', Num 1), (''toString'', Num 2)], HObj [(''a'', Num 1)]]\<rparr>)"
  by (simp add: eval_defs)

section \<open>The path of a nested failure\<close>

text \<open>
  C8. With an empty path tracker and a store that holds \<open>{user: {name: 123}}\<close>, running the
  nested schema with the scope \<open>root\<close> raises \<open>root.user.name: requires string\<close>: the scope
  label and the two property keys are on the tracker, in this order, when the predicate of
  the leaf fails.
\<close>

theorem nested_path:
  assumes "scopeStack st = []"
    and "lookup (heap st) a = Some (HObj [(''user'', Ref b)])"
    and "lookup (heap st) b = Some (HObj [(''name'', Num 123)])"
  shows "fst (run userSchema (Ref a) (Some ''root'') st)
         = Inl (ErrorInvalid ''root.user.name: requires string'')"
proof -
  have a: "a < length (heap st)" and b: "b < length (heap st)"
    using assms lookup_SomeD by blast+
  show ?thesis
    using assms a b
    by (simp add: run_runBody runBody_def userSchema_def stringRule_def object_def regular_def
      performRule_def instanceofObject_def truthyScope_def keysOf_def getProp_def
      propRuleTruthy_def objectPrototypeKeys_def raiseError_def alloc_def push_def pop_def
      typeofString_def fullScope_def segStr_def)
qed

theorem nested_path_witness:
  "scopeStack \<lparr>scopeStack = [], heap = userStore (Num 123)\<rparr> = []
   \<and> lookup (heap \<lparr>scopeStack = [], heap = userStore (Num 123)\<rparr>) 0
       = Some (HObj [(''user'', Ref 1)])
   \<and> lookup (heap \<lparr>scopeStack = [], heap = userStore (Num 123)\<rparr>) 1
       = Some (HObj [(''name'', Num 123)])
   \<and> fst (run userSchema (Ref 0) (Some ''root'') \<lparr>scopeStack = [], heap = userStore (Num 123)\<rparr>)
       = Inl (ErrorInvalid ''root.user.name: requires string'')"
  using nested_path [of "\<lparr>scopeStack = [], heap = userStore (Num 123)\<rparr>" 0 1]
  by (simp add: userStore_def lookup_def)

section \<open>nilable and extra rules\<close>

text \<open>
  C10, as the code has it for an extra rule that \<^verbatim>\<open>concat\<close> appends as one element (a
  rule written as a plain object). \<open>nilable()\<close> short-circuits the primary predicate
  only. When the primary rule of \<open>v\<close> has no sanitizer and every element of the extra
  rules of \<open>v\<close> is a rule without sanitizer that accepts \<open>null\<close>, \<open>v.extra(r).nilable()
  .run(null)\<close> is the execution of \<open>r\<close> on \<open>null\<close>: it raises with the description of \<open>r\<close>
  when the predicate of \<open>r\<close> rejects the value that the before-sanitizer of \<open>r\<close> makes of
  \<open>null\<close>. So a nilable validator with extra rules can reject \<open>null\<close>.
\<close>

theorem nilable_extra_null:
  assumes "sfunc (rule v) = None"
    and "\<forall>e\<in>set (extraRules v). acceptsNull (heap st) e"
  shows "run (nilable (extra v (ObjectRule d f s))) Null None st
           = performRule Null (ObjectRule d f s) None st
     \<and> (\<not> f (heap st) (applyBefore_spec (ObjectRule d f s) (heap st) Null) \<longrightarrow>
          run (nilable (extra v (ObjectRule d f s))) Null None st
            = (Inl (ErrorInvalid (fullScope (scopeStack st) @ '': requires '' @ d)), st))"
proof -
  let ?r = "ObjectRule d f s"
  have cb: "(case transformer v of Some t \<Rightarrow> process t Null st | None \<Rightarrow> (Inr Null, st))
              = (Inr Null, st)"
    by (cases "transformer v") (simp_all add: process_non_container instanceofObject_def)
  have "runBody (nilable (extra v ?r)) Null st
          = forEachExtra (extraRules v @ [RuleEntry ?r]) Null st"
    using assms(1) cb
    by (simp add: runBody_def nilable_def extra_def performRule_def)
  also have "\<dots> = performRule Null ?r None st"
    using forEachExtra_accept_null [OF assms(2)]
    by (simp add: forEachExtra_append split: prod.splits sum.splits)
  finally have eq: "run (nilable (extra v ?r)) Null None st = performRule Null ?r None st"
    by (simp add: run_runBody truthyScope_def)
  show ?thesis
    unfolding eq
    by (simp add: performRule_eq_spec performRule_spec_def Let_def)
qed

text \<open>
  An instance: the object schema of the examples, which has a transformer and rejects
  \<open>null\<close> by itself, with an extra rule that accepts everything and then an extra rule
  that wants a number, both written as plain objects.
\<close>

theorem nilable_extra_null_witness:
  "sfunc (rule (extra userSchema anyRule)) = None
   \<and> extraRules (extra userSchema anyRule) = [RuleEntry anyRule]
   \<and> acceptsNull [] (RuleEntry anyRule)
   \<and> \<not> typeofNumber []
         (applyBefore_spec (ObjectRule ''number'' typeofNumber None) [] Null)
   \<and> run (nilable (extra (extra userSchema anyRule) (ObjectRule ''number'' typeofNumber None)))
        Null None \<lparr>scopeStack = [], heap = []\<rparr>
      = (Inl (ErrorInvalid '': requires number''), \<lparr>scopeStack = [], heap = []\<rparr>)"
  using nilable_extra_null [of "extra userSchema anyRule" "\<lparr>scopeStack = [], heap = []\<rparr>"
      "''number''" typeofNumber None]
  by (simp add: userSchema_def object_def extra_def anyRule_def acceptsNull_def
      applyBefore_spec_def typeofNumber_def fullScope_def performRule_def raiseError_def)

text \<open>
  The claim as stated fails when an extra rule added before \<open>r\<close> rejects \<open>null\<close> (all rules
  here are plain objects, so that each is one element of the extra rules): the predicate
  of \<open>r\<close> is false on \<open>null\<close>, but the error carries the description of the earlier rule and
  \<open>r\<close> is never executed.
\<close>

theorem nilable_extra_null_counterexample:
  "\<not> vfunc (ObjectRule ''never'' (\<lambda>h x. False) None) [] Null
   \<and> extraRules (nilable (extra (extra (regular (ObjectRule ''positive'' positiveNumber None))
                                        (ObjectRule ''number'' typeofNumber None))
                                 (ObjectRule ''never'' (\<lambda>h x. False) None)))
       = [RuleEntry (ObjectRule ''number'' typeofNumber None),
          RuleEntry (ObjectRule ''never'' (\<lambda>h x. False) None)]
   \<and> run (nilable (extra (extra (regular (ObjectRule ''positive'' positiveNumber None))
                                (ObjectRule ''number'' typeofNumber None))
                         (ObjectRule ''never'' (\<lambda>h x. False) None)))
        Null None \<lparr>scopeStack = [], heap = []\<rparr>
      = (Inl (ErrorInvalid '': requires number''), \<lparr>scopeStack = [], heap = []\<rparr>)
   \<and> '': requires number''
       \<noteq> fullScope [] @ '': requires '' @ desc (ObjectRule ''never'' (\<lambda>h x. False) None)"
  by (simp add: eval_defs)

section \<open>The copy and the input\<close>

subsection \<open>The input is not written to\<close>

lemma keepsBelow_refl [simp]: "keepsBelow n st st"
  by (simp add: keepsBelow_def)

lemma keepsBelow_trans: "keepsBelow n a b \<Longrightarrow> keepsBelow n b c \<Longrightarrow> keepsBelow n a c"
  by (simp add: keepsBelow_def)

lemma keepsBelow_push [simp]: "keepsBelow n (push v st) st' = keepsBelow n st st'"
  by (simp add: keepsBelow_def)

lemma keepsBelow_pop [simp]: "keepsBelow n st (pop st') = keepsBelow n st st'"
  by (simp add: keepsBelow_def)

lemma keepsBelow_setProp: "n \<le> c \<Longrightarrow> keepsBelow n st (setProp c k x st)"
  by (auto simp: keepsBelow_def setProp_def split: option.splits hobj.splits)

lemma keepsBelow_setIndex: "n \<le> c \<Longrightarrow> keepsBelow n st (setIndex c i x st)"
  by (auto simp: keepsBelow_def setIndex_def split: option.splits hobj.splits)

lemma keepsBelow_alloc: "n \<le> length (heap st) \<Longrightarrow> keepsBelow n st (snd (alloc obj st))"
  by (simp add: keepsBelow_def alloc_def nth_append)

lemma keepsBelow_length:
  "keepsBelow n st st' \<Longrightarrow> n \<le> length (heap st) \<Longrightarrow> n \<le> length (heap st')"
  by (simp add: keepsBelow_def)

lemma performRule_keepsBelow:
  assumes "\<And>x. keepsBelow n st (snd (t x st))"
  shows "keepsBelow n st (snd (performRule value r (Some t) st))"
  using assms
  by (auto simp add: performRule_def Let_def split: prod.splits sum.splits) (metis snd_conv)+

text \<open>
  Every write of the six functions goes to a container allocated after the call started:
  a loop writes to its \<open>copy\<close> only, and \<open>copy\<close> is not below the bound \<open>n\<close>.
\<close>

lemma heap_frame:
  "n \<le> length (heap st) \<Longrightarrow> keepsBelow n st (snd (run v value scope st))"
  "n \<le> length (heap st) \<Longrightarrow> keepsBelow n st (snd (process t x st))"
  "n \<le> length (heap st) \<Longrightarrow> n \<le> copy
     \<Longrightarrow> keepsBelow n st (snd (objectProps ps obj copy st))"
  "n \<le> length (heap st) \<Longrightarrow> n \<le> copy
     \<Longrightarrow> keepsBelow n st (snd (indexedProps cr keys obj copy st))"
  "n \<le> length (heap st) \<Longrightarrow> n \<le> copy
     \<Longrightarrow> keepsBelow n st (snd (arrayElems cr idxs array copy st))"
  "n \<le> length (heap st) \<Longrightarrow> keepsBelow n st (snd (performPropRule pv pr st))"
proof (induction v "value" scope st and t x st and ps obj copy st and cr keys obj copy st
    and cr idxs array copy st and pv pr st
    rule: run_process_objectProps_indexedProps_arrayElems_performPropRule.induct)
  case (1 v "value" scope st)
  define cb where
    "cb = (\<lambda>x s. case transformer v of Some t \<Rightarrow> process t x s | None \<Rightarrow> (Inr x, s))"
  have cb: "keepsBelow n s (snd (cb x s))" if "n \<le> length (heap s)" for x s
    using 1(1) that by (cases "transformer v") (simp_all add: cb_def)
  have body: "keepsBelow n s (snd (runBody v value s))" if "n \<le> length (heap s)" for s
  proof -
    have "keepsBelow n s (snd (performRule value (rule v) (Some cb) s))"
      using performRule_keepsBelow [of n s cb] cb that by simp
    then show ?thesis
      by (auto simp: runBody_def cb_def [symmetric] split: prod.splits sum.splits
          dest!: arg_cong [where f = snd])
  qed
  show ?case
    using body [of st] body [of "push (SegStr (the scope)) st"] 1(2)
    unfolding run_runBody by simp
next
  case (2 propRules obj st)
  show ?case
  proof (cases "instanceofObject (heap st) obj")
    case False
    then show ?thesis by simp
  next
    case True
    show ?thesis
    proof (cases "checkKeys propRules (keysOf (heap st) obj) st")
      case (Pair res st1)
      have st1: "st1 = st"
        using checkKeys_snd [of propRules "keysOf (heap st) obj" st] Pair by simp
      show ?thesis
      proof (cases res)
        case (Inl e)
        then show ?thesis using True Pair st1 by simp
      next
        case (Inr u)
        obtain c st2 where al: "alloc (HObj []) st = (c, st2)" by (cases "alloc (HObj []) st")
        have c: "c = length (heap st)" and l2: "length (heap st2) = Suc (length (heap st))"
          using al by (auto simp: alloc_def)
        have k2: "keepsBelow n st st2"
          using keepsBelow_alloc [of n st "HObj []"] al 2(2) by simp
        have "keepsBelow n st2 (snd (objectProps propRules obj c st2))"
          using 2(1) [OF True Pair [symmetric] Inr, of c st2] al st1 2(2) c l2 by simp
        then have "keepsBelow n st (snd (objectProps propRules obj c st2))"
          using k2 keepsBelow_trans by blast
        then show ?thesis
          using True Pair st1 Inr al by (auto split: prod.splits sum.splits)
      qed
    qed
  qed
next
  case (3 childRule obj st)
  show ?case
  proof (cases "instanceofObject (heap st) obj")
    case False
    then show ?thesis by simp
  next
    case True
    obtain c st1 where al: "alloc (HObj []) st = (c, st1)" by (cases "alloc (HObj []) st")
    have c: "c = length (heap st)" and l1: "length (heap st1) = Suc (length (heap st))"
      using al by (auto simp: alloc_def)
    have k1: "keepsBelow n st st1" using keepsBelow_alloc [of n st "HObj []"] al 3(2) by simp
    have "keepsBelow n st1 (snd (indexedProps childRule (keysOf (heap st1) obj) obj c st1))"
      using 3(1) [OF True al [symmetric]] 3(2) c l1 by simp
    then have "keepsBelow n st (snd (indexedProps childRule (keysOf (heap st1) obj) obj c st1))"
      using k1 keepsBelow_trans by blast
    then show ?thesis using True al by (auto split: prod.splits sum.splits)
  qed
next
  case (4 childRule array st)
  show ?case
  proof (cases "instanceofArray (heap st) array")
    case False
    then show ?thesis by simp
  next
    case True
    obtain c st1 where al: "alloc (HArr []) st = (c, st1)" by (cases "alloc (HArr []) st")
    have c: "c = length (heap st)" and l1: "length (heap st1) = Suc (length (heap st))"
      using al by (auto simp: alloc_def)
    have k1: "keepsBelow n st st1" using keepsBelow_alloc [of n st "HArr []"] al 4(2) by simp
    have "keepsBelow n st1
            (snd (arrayElems childRule [0..<arrayLength (heap st1) array] array c st1))"
      using 4(1) [OF True al [symmetric]] 4(2) c l1 by simp
    then have "keepsBelow n st
            (snd (arrayElems childRule [0..<arrayLength (heap st1) array] array c st1))"
      using k1 keepsBelow_trans by blast
    then show ?thesis using True al by (auto split: prod.splits sum.splits)
  qed
next
  case (5 obj copy st)
  then show ?case by simp
next
  case (6 key propRule rest obj copy st)
  obtain res st1 where
    p: "performPropRule (getProp (heap st) obj key) propRule (push (SegStr key) st) = (res, st1)"
    by (cases "performPropRule (getProp (heap st) obj key) propRule (push (SegStr key) st)")
  have k1: "keepsBelow n st st1" using 6(1) 6(3) p by simp
  show ?case
  proof (cases res)
    case (Inl e)
    then show ?thesis using p k1 by simp
  next
    case (Inr x)
    let ?st2 = "pop (setProp copy key x st1)"
    have k2: "keepsBelow n st ?st2"
      using keepsBelow_trans [OF k1 keepsBelow_setProp [OF 6(4), of st1 key x]] by simp
    have "keepsBelow n ?st2 (snd (objectProps rest obj copy ?st2))"
      using 6(2) [OF p [symmetric] Inr] keepsBelow_length [OF k2 6(3)] 6(4) by simp
    then show ?thesis using p Inr keepsBelow_trans [OF k2] by simp
  qed
next
  case (7 childRule obj copy st)
  then show ?case by simp
next
  case (8 childRule key keys obj copy st)
  obtain res st1 where
    p: "performPropRule (getProp (heap st) obj key) childRule (push (SegStr key) st) = (res, st1)"
    by (cases "performPropRule (getProp (heap st) obj key) childRule (push (SegStr key) st)")
  have k1: "keepsBelow n st st1" using 8(1) 8(3) p by simp
  show ?case
  proof (cases res)
    case (Inl e)
    then show ?thesis using p k1 by simp
  next
    case (Inr x)
    let ?st2 = "pop (setProp copy key x st1)"
    have k2: "keepsBelow n st ?st2"
      using keepsBelow_trans [OF k1 keepsBelow_setProp [OF 8(4), of st1 key x]] by simp
    have "keepsBelow n ?st2 (snd (indexedProps childRule keys obj copy ?st2))"
      using 8(2) [OF p [symmetric] Inr] keepsBelow_length [OF k2 8(3)] 8(4) by simp
    then show ?thesis using p Inr keepsBelow_trans [OF k2] by simp
  qed
next
  case (9 childRule array copy st)
  then show ?case by simp
next
  case (10 childRule i idxs array copy st)
  obtain res st1 where
    p: "performPropRule (getIndex (heap st) array i) childRule (push (SegNum i) st) = (res, st1)"
    by (cases "performPropRule (getIndex (heap st) array i) childRule (push (SegNum i) st)")
  have k1: "keepsBelow n st st1" using 10(1) 10(3) p by simp
  show ?case
  proof (cases res)
    case (Inl e)
    then show ?thesis using p k1 by simp
  next
    case (Inr x)
    let ?st2 = "pop (setIndex copy i x st1)"
    have k2: "keepsBelow n st ?st2"
      using keepsBelow_trans [OF k1 keepsBelow_setIndex [OF 10(4), of st1 i x]] by simp
    have "keepsBelow n ?st2 (snd (arrayElems childRule idxs array copy ?st2))"
      using 10(2) [OF p [symmetric] Inr] keepsBelow_length [OF k2 10(3)] 10(4) by simp
    then show ?thesis using p Inr keepsBelow_trans [OF k2] by simp
  qed
next
  case (11 pv v st)
  then show ?case by simp
next
  case (12 pv f st)
  then show ?case by simp
next
  case (13 pv r st)
  then show ?case by simp
qed

subsection \<open>The top-level container is new\<close>

lemma process_fresh:
  assumes "handles t (heap st) x" and "process t x st = (Inr out, st')"
  shows "out = Ref (length (heap st)) \<and> length (heap st) < length (heap st')"
proof (cases t)
  case (ObjectTransformer ps)
  have io: "instanceofObject (heap st) x"
    using assms(1) ObjectTransformer by (simp add: handles_def)
  obtain res st1 where ck: "checkKeys ps (keysOf (heap st) x) st = (res, st1)"
    by (cases "checkKeys ps (keysOf (heap st) x) st")
  have st1: "st1 = st" using checkKeys_snd [of ps "keysOf (heap st) x" st] ck by simp
  let ?st2 = "snd (alloc (HObj []) st)"
  have "keepsBelow 0 ?st2 (snd (objectProps ps x (length (heap st)) ?st2))"
    by (rule heap_frame(3)) simp_all
  then have "length (heap st) < length (heap (snd (objectProps ps x (length (heap st)) ?st2)))"
    by (simp add: keepsBelow_def alloc_def)
  then show ?thesis
    using assms(2) ObjectTransformer io ck st1
    by (cases res) (auto simp: alloc_def split: prod.splits sum.splits)
next
  case (IndexedObjectTransformer cr)
  have io: "instanceofObject (heap st) x"
    using assms(1) IndexedObjectTransformer by (simp add: handles_def)
  let ?st1 = "snd (alloc (HObj []) st)"
  have "keepsBelow 0 ?st1
          (snd (indexedProps cr (keysOf (heap ?st1) x) x (length (heap st)) ?st1))"
    by (rule heap_frame(4)) simp_all
  then have "length (heap st)
      < length (heap (snd (indexedProps cr (keysOf (heap ?st1) x) x (length (heap st)) ?st1)))"
    by (simp add: keepsBelow_def alloc_def)
  then show ?thesis
    using assms(2) IndexedObjectTransformer io
    by (auto simp: alloc_def split: prod.splits sum.splits)
next
  case (ArrayTransformer cr)
  have ia: "instanceofArray (heap st) x"
    using assms(1) ArrayTransformer by (simp add: handles_def)
  let ?st1 = "snd (alloc (HArr []) st)"
  have "keepsBelow 0 ?st1
          (snd (arrayElems cr [0..<arrayLength (heap ?st1) x] x (length (heap st)) ?st1))"
    by (rule heap_frame(5)) simp_all
  then have "length (heap st)
      < length (heap (snd (arrayElems cr [0..<arrayLength (heap ?st1) x] x
                             (length (heap st)) ?st1)))"
    by (simp add: keepsBelow_def alloc_def)
  then show ?thesis
    using assms(2) ArrayTransformer ia
    by (auto simp: alloc_def split: prod.splits sum.splits)
qed

lemma runBody_fresh:
  assumes "transformer v = Some t" and "handles t (heap st) value"
    and "sfunc (rule v) = None" and "\<forall>e\<in>set (extraRules v). entrySanitizer e = None"
    and "runBody v value st = (Inr out, st')"
  shows "out = Ref (length (heap st)) \<and> length (heap st) < length (heap st')"
proof -
  obtain res1 st1 where p: "process t value st = (res1, st1)" by (cases "process t value st")
  show ?thesis
  proof (cases res1)
    case (Inl e)
    then show ?thesis
      using assms p by (auto simp: runBody_def performRule_def raiseError_def split: if_splits)
  next
    case (Inr x)
    have x: "x = Ref (length (heap st)) \<and> length (heap st) < length (heap st1)"
      using process_fresh [OF assms(2)] p Inr by simp
    have fe: "forEachExtra (extraRules v) x st1 = (Inr out, st')"
      using assms p Inr by (auto simp: runBody_def performRule_def raiseError_def split: if_splits)
    have "out = x" using forEachExtra_no_sanitizer [OF assms(4) fe] .
    moreover have "st' = st1" using forEachExtra_snd [of "extraRules v" x st1] fe by simp
    ultimately show ?thesis using x by simp
  qed
qed

lemma run_fresh:
  assumes "transformer v = Some t" and "handles t (heap st) value"
    and "sfunc (rule v) = None" and "\<forall>e\<in>set (extraRules v). entrySanitizer e = None"
    and "run v value scope st = (Inr out, st')"
  shows "out = Ref (length (heap st)) \<and> length (heap st) < length (heap st')"
proof (cases "truthyScope scope")
  case False
  then show ?thesis using runBody_fresh [OF assms(1-4)] assms(5) by (simp add: run_runBody)
next
  case True
  let ?s = "push (SegStr (the scope)) st"
  obtain st3 where b: "runBody v value ?s = (Inr out, st3)" and st': "st' = pop st3"
    using assms(5) True by (cases "runBody v value ?s") (simp add: run_runBody)
  have "handles t (heap ?s) value" using assms(2) by simp
  from runBody_fresh [OF assms(1) this assms(3,4) b] show ?thesis using st' by simp
qed

subsection \<open>How deep the copy goes\<close>

lemma isPrimitive_clean: "isPrimitive x \<Longrightarrow> clean n x"
  by (cases x) (simp_all add: isPrimitive_def clean_def)

lemma good_push [simp]: "good n (push v st) = good n st"
  by (simp add: good_def)

lemma good_pop [simp]: "good n (pop st) = good n st"
  by (simp add: good_def)

lemma good_alloc_HObj: "good n st \<Longrightarrow> good n (snd (alloc (HObj []) st))"
  by (auto simp: good_def closedAbove_def alloc_def nth_append valuesOf_def less_Suc_eq)

lemma good_alloc_HArr: "good n st \<Longrightarrow> good n (snd (alloc (HArr []) st))"
  by (auto simp: good_def closedAbove_def alloc_def nth_append valuesOf_def less_Suc_eq)

lemma upsert_values: "snd ` set (upsert props k x) \<subseteq> insert x (snd ` set props)"
  by (induction props k x rule: upsert.induct) auto

lemma good_setProp: "good n st \<Longrightarrow> clean n x \<Longrightarrow> good n (setProp c k x st)"
proof -
  assume g: "good n st" and x: "clean n x"
  show ?thesis
  proof (cases "lookup (heap st) c")
    case None
    then show ?thesis using g by (simp add: setProp_def)
  next
    case (Some ob)
    then have c: "c < length (heap st)" and ob: "heap st ! c = ob"
      by (auto simp: lookup_def split: if_splits)
    show ?thesis
    proof (cases ob)
      case (HArr elems)
      then show ?thesis using g Some by (simp add: setProp_def)
    next
      case (HObj props)
      have "\<forall>y\<in>valuesOf (HObj (upsert props k x)). clean n y" if "n \<le> c"
      proof
        fix y assume "y \<in> valuesOf (HObj (upsert props k x))"
        then have "y = x \<or> y \<in> valuesOf (heap st ! c)"
          using upsert_values [of props k x] ob HObj by (auto simp: valuesOf_def)
        then show "clean n y"
          using g x c that by (auto simp: good_def closedAbove_def)
      qed
      then show ?thesis
        using g Some HObj c
        by (auto simp: setProp_def good_def closedAbove_def nth_list_update)
    qed
  qed
qed

lemma good_setIndex: "good n st \<Longrightarrow> clean n x \<Longrightarrow> good n (setIndex c i x st)"
proof -
  assume g: "good n st" and x: "clean n x"
  show ?thesis
  proof (cases "lookup (heap st) c")
    case None
    then show ?thesis using g by (simp add: setIndex_def)
  next
    case (Some ob)
    then have c: "c < length (heap st)" and ob: "heap st ! c = ob"
      by (auto simp: lookup_def split: if_splits)
    show ?thesis
    proof (cases ob)
      case (HObj props)
      then show ?thesis using g Some by (simp add: setIndex_def)
    next
      case (HArr elems)
      let ?new = "if i < length elems then elems[i := x]
                  else elems @ replicate (i - length elems) Undefined @ [x]"
      have sub: "set ?new \<subseteq> insert x (insert Undefined (set elems))"
        using set_update_subset_insert [of elems i x] by auto
      have u: "clean n Undefined" by (simp add: clean_def)
      have "\<forall>y\<in>valuesOf (HArr ?new). clean n y" if "n \<le> c"
      proof (intro ballI)
        fix y assume "y \<in> valuesOf (HArr ?new)"
        then have "y = x \<or> y = Undefined \<or> y \<in> valuesOf (heap st ! c)"
          using sub ob HArr by (auto simp: valuesOf_def)
        then show "clean n y"
          using g x c that u by (auto simp: good_def closedAbove_def)
      qed
      then show ?thesis
        using g Some HArr c
        by (auto simp: setIndex_def good_def closedAbove_def nth_list_update)
    qed
  qed
qed

text \<open>
  Under a schema that copies at every level, a value that one of the functions returns is
  a primitive or a container allocated since the bound \<open>n\<close>, and so is every value it
  stores in such a container.
\<close>

lemma deep_copy:
  "good n st \<Longrightarrow> copiesV v \<Longrightarrow>
     good n (snd (run v value scope st))
     \<and> (\<forall>out. fst (run v value scope st) = Inr out \<longrightarrow> clean n out)"
  "good n st \<Longrightarrow> copiesT t \<Longrightarrow>
     good n (snd (process t x st))
     \<and> (\<forall>out. fst (process t x st) = Inr out \<longrightarrow> isPrimitive x \<or> handles t (heap st) x
           \<longrightarrow> clean n out)"
  "good n st \<Longrightarrow> \<forall>kp\<in>set ps. copiesP (snd kp) \<Longrightarrow>
     good n (snd (objectProps ps obj copy st))"
  "good n st \<Longrightarrow> copiesP cr \<Longrightarrow>
     good n (snd (indexedProps cr keys obj copy st))"
  "good n st \<Longrightarrow> copiesP cr \<Longrightarrow>
     good n (snd (arrayElems cr idxs array copy st))"
  "good n st \<Longrightarrow> copiesP pr \<Longrightarrow>
     good n (snd (performPropRule pv pr st))
     \<and> (\<forall>out. fst (performPropRule pv pr st) = Inr out \<longrightarrow> clean n out)"
proof (induction v "value" scope st and t x st and ps obj copy st and cr keys obj copy st
    and cr idxs array copy st and pv pr st
    rule: run_process_objectProps_indexedProps_arrayElems_performPropRule.induct)
  case (1 v "value" scope st)
  obtain r topt es where v: "v = Validator r topt es" by (cases v)
  have nos: "sfunc r = None" and noe: "\<forall>e\<in>set es. entrySanitizer e = None"
    using 1(3) v by simp_all
  have body: "good n (snd (runBody v value s))
      \<and> (\<forall>out. fst (runBody v value s) = Inr out \<longrightarrow> clean n out)" if gs: "good n s" for s
  proof (cases "vfunc r (heap s) value")
    case False
    then show ?thesis
      using gs nos v by (simp add: runBody_def performRule_no_sanitizer raiseError_def)
  next
    case True
    show ?thesis
    proof (cases topt)
      case None
      have "isPrimitive value" using 1(3) v None True by auto
      then have c: "clean n value" by (rule isPrimitive_clean)
      have "runBody v value s = forEachExtra es value s"
        using True nos v None by (simp add: runBody_def performRule_no_sanitizer)
      then show ?thesis
        using gs c forEachExtra_no_sanitizer_fst [OF noe] by auto
    next
      case (Some t)
      have ct: "copiesT t" and h: "isPrimitive value \<or> handles t (heap s) value"
        using 1(3) v Some True by auto
      have tv: "transformer v = Some t" using v Some by simp
      have ih: "good n (snd (process t value s))
          \<and> (\<forall>out. fst (process t value s) = Inr out \<longrightarrow> clean n out)"
        using 1(1) [OF refl tv gs ct, of "value"] h by simp
      obtain res s1 where p: "process t value s = (res, s1)" by (cases "process t value s")
      show ?thesis
      proof (cases res)
        case (Inl e)
        then show ?thesis
          using ih p True nos v Some by (simp add: runBody_def performRule_no_sanitizer)
      next
        case (Inr y)
        have "runBody v value s = forEachExtra es y s1"
          using p Inr True nos v Some by (simp add: runBody_def performRule_no_sanitizer)
        then show ?thesis
          using ih p Inr forEachExtra_no_sanitizer_fst [OF noe, of y s1] by auto
      qed
    qed
  qed
  show ?case
    using body [of st] body [of "push (SegStr (the scope)) st"] 1(2)
    unfolding run_runBody by simp
next
  case (2 propRules obj st)
  show ?case
  proof (cases "instanceofObject (heap st) obj")
    case False
    then show ?thesis using 2(2) by (auto simp: handles_def isPrimitive_clean)
  next
    case True
    obtain res st1 where ck: "checkKeys propRules (keysOf (heap st) obj) st = (res, st1)"
      by (cases "checkKeys propRules (keysOf (heap st) obj) st")
    have st1: "st1 = st"
      using checkKeys_snd [of propRules "keysOf (heap st) obj" st] ck by simp
    show ?thesis
    proof (cases res)
      case (Inl e)
      then show ?thesis using True ck st1 2(2) by simp
    next
      case (Inr u)
      obtain c st2 where al: "alloc (HObj []) st = (c, st2)" by (cases "alloc (HObj []) st")
      have c: "c = length (heap st)" using al by (auto simp: alloc_def)
      have g2: "good n st2" using good_alloc_HObj [OF 2(2)] al by simp
      have "good n (snd (objectProps propRules obj c st2))"
        using 2(1) [OF True ck [symmetric] Inr, of c st2] al st1 g2 2(3) by simp
      moreover have "clean n (Ref c)" using c 2(2) by (simp add: clean_def good_def)
      ultimately show ?thesis
        using True ck st1 Inr al by (auto split: prod.splits sum.splits)
    qed
  qed
next
  case (3 childRule obj st)
  show ?case
  proof (cases "instanceofObject (heap st) obj")
    case False
    then show ?thesis using 3(2) by (auto simp: handles_def isPrimitive_clean)
  next
    case True
    obtain c st1 where al: "alloc (HObj []) st = (c, st1)" by (cases "alloc (HObj []) st")
    have c: "c = length (heap st)" using al by (auto simp: alloc_def)
    have g1: "good n st1" using good_alloc_HObj [OF 3(2)] al by simp
    have "good n (snd (indexedProps childRule (keysOf (heap st1) obj) obj c st1))"
      using 3(1) [OF True al [symmetric]] g1 3(3) by simp
    moreover have "clean n (Ref c)" using c 3(2) by (simp add: clean_def good_def)
    ultimately show ?thesis using True al by (auto split: prod.splits sum.splits)
  qed
next
  case (4 childRule array st)
  show ?case
  proof (cases "instanceofArray (heap st) array")
    case False
    then show ?thesis using 4(2) by (auto simp: handles_def isPrimitive_clean)
  next
    case True
    obtain c st1 where al: "alloc (HArr []) st = (c, st1)" by (cases "alloc (HArr []) st")
    have c: "c = length (heap st)" using al by (auto simp: alloc_def)
    have g1: "good n st1" using good_alloc_HArr [OF 4(2)] al by simp
    have "good n (snd (arrayElems childRule [0..<arrayLength (heap st1) array] array c st1))"
      using 4(1) [OF True al [symmetric]] g1 4(3) by simp
    moreover have "clean n (Ref c)" using c 4(2) by (simp add: clean_def good_def)
    ultimately show ?thesis using True al by (auto split: prod.splits sum.splits)
  qed
next
  case (5 obj copy st)
  then show ?case by simp
next
  case (6 key propRule rest obj copy st)
  obtain res st1 where
    p: "performPropRule (getProp (heap st) obj key) propRule (push (SegStr key) st) = (res, st1)"
    by (cases "performPropRule (getProp (heap st) obj key) propRule (push (SegStr key) st)")
  have ih1: "good n st1 \<and> (\<forall>out. res = Inr out \<longrightarrow> clean n out)"
    using 6(1) 6(3) 6(4) p by simp
  show ?case
  proof (cases res)
    case (Inl e)
    then show ?thesis using p ih1 by simp
  next
    case (Inr x)
    have "good n (pop (setProp copy key x st1))"
      using good_setProp [of n st1 x copy key] ih1 Inr by simp
    then show ?thesis using 6(2) [OF p [symmetric] Inr] 6(4) p Inr by simp
  qed
next
  case (7 childRule obj copy st)
  then show ?case by simp
next
  case (8 childRule key keys obj copy st)
  obtain res st1 where
    p: "performPropRule (getProp (heap st) obj key) childRule (push (SegStr key) st) = (res, st1)"
    by (cases "performPropRule (getProp (heap st) obj key) childRule (push (SegStr key) st)")
  have ih1: "good n st1 \<and> (\<forall>out. res = Inr out \<longrightarrow> clean n out)"
    using 8(1) 8(3) 8(4) p by simp
  show ?case
  proof (cases res)
    case (Inl e)
    then show ?thesis using p ih1 by simp
  next
    case (Inr x)
    have "good n (pop (setProp copy key x st1))"
      using good_setProp [of n st1 x copy key] ih1 Inr by simp
    then show ?thesis using 8(2) [OF p [symmetric] Inr] 8(4) p Inr by simp
  qed
next
  case (9 childRule array copy st)
  then show ?case by simp
next
  case (10 childRule i idxs array copy st)
  obtain res st1 where
    p: "performPropRule (getIndex (heap st) array i) childRule (push (SegNum i) st) = (res, st1)"
    by (cases "performPropRule (getIndex (heap st) array i) childRule (push (SegNum i) st)")
  have ih1: "good n st1 \<and> (\<forall>out. res = Inr out \<longrightarrow> clean n out)"
    using 10(1) 10(3) 10(4) p by simp
  show ?case
  proof (cases res)
    case (Inl e)
    then show ?thesis using p ih1 by simp
  next
    case (Inr x)
    have "good n (pop (setIndex copy i x st1))"
      using good_setIndex [of n st1 x copy i] ih1 Inr by simp
    then show ?thesis using 10(2) [OF p [symmetric] Inr] 10(4) p Inr by simp
  qed
next
  case (11 pv v st)
  then show ?case by simp
next
  case (12 pv f st)
  then show ?case by (simp add: isPrimitive_clean)
next
  case (13 pv r st)
  then show ?case
    by (auto simp: performRule_None_no_sanitizer raiseError_def isPrimitive_clean)
qed

lemma reaches_clean:
  "reaches h x b \<Longrightarrow> closedAbove n h \<Longrightarrow> clean n x \<Longrightarrow> n \<le> b"
proof (induction rule: reaches.induct)
  case (here h a)
  then show ?case by (simp add: clean_def)
next
  case (step h a c x b)
  have a: "a < length h" and c: "h ! a = c" using lookup_SomeD [OF step(1)] by simp_all
  have "n \<le> a" using step(6) by (simp add: clean_def)
  then have "clean n x" using step(5) step(2) a c by (auto simp: closedAbove_def)
  then show ?case using step by simp
qed


subsection \<open>What the loops store\<close>

lemma returnsAsIs_PRule:
  "sfunc r = None \<Longrightarrow> \<forall>h. vfunc r h x \<Longrightarrow> returnsAsIs (PRule r) x"
  by (simp add: returnsAsIs_def performRule_def)

lemma returnsAsIs_regular:
  "sfunc r = None \<Longrightarrow> \<forall>h. vfunc r h x \<Longrightarrow> returnsAsIs (PValidator (regular r)) x"
  by (simp add: returnsAsIs_def run_runBody runBody_def regular_def performRule_def
      truthyScope_def)

lemma returnsAsIsD: "returnsAsIs pr x \<Longrightarrow> performPropRule x pr st = (Inr x, st)"
  by (simp add: returnsAsIs_def)

lemma pop_push_heap: "pop ((push v st)\<lparr>heap := h\<rparr>) = st\<lparr>heap := h\<rparr>"
  by (simp add: pop_def push_def)

lemma lookup_update: "a \<noteq> c \<Longrightarrow> lookup (h[c := y]) a = lookup h a"
  by (simp add: lookup_def)

lemma lookup_update_same: "lookup h c = Some z \<Longrightarrow> lookup (h[c := y]) c = Some y"
  by (auto simp: lookup_def split: if_splits)

lemma getProp_update: "a \<noteq> c \<Longrightarrow> getProp (h[c := y]) (Ref a) k = getProp h (Ref a) k"
  by (simp add: getProp_def lookup_update)

lemma heap_update_id: "lookup (heap st) c = Some y \<Longrightarrow> st\<lparr>heap := (heap st)[c := y]\<rparr> = st"
  by (auto simp: lookup_def split: if_splits)

lemma upsert_fresh: "k \<notin> fst ` set props \<Longrightarrow> upsert props k x = props @ [(k, x)]"
  by (induction props k x rule: upsert.induct) auto

text \<open>
  When the child rule gives every element back as it is, the loop of the array transformer
  completes the copy with the elements of the input from \<open>i\<close> on.
\<close>

lemma arrayElems_asIs:
  assumes "lookup (heap st) a = Some (HArr elems)" and "a \<noteq> c"
    and "lookup (heap st) c = Some (HArr done)" and "length done = i"
    and "\<forall>x\<in>set elems. returnsAsIs cr x"
  shows "arrayElems cr [i..<length elems] (Ref a) c st
           = (Inr (), st\<lparr>heap := (heap st)[c := HArr (done @ drop i elems)]\<rparr>)"
  using assms
proof (induction "length elems - i" arbitrary: i "done" st)
  case 0
  then show ?case by (simp add: heap_update_id)
next
  case (Suc n)
  have i: "i < length elems" using Suc(2) by simp
  let ?x = "elems ! i"
  let ?st2 = "st\<lparr>heap := (heap st)[c := HArr (done @ [?x])]\<rparr>"
  have gi: "getIndex (heap st) (Ref a) i = ?x" using Suc(3) i by (simp add: getIndex_def)
  have r: "performPropRule ?x cr (push (SegNum i) st) = (Inr ?x, push (SegNum i) st)"
    using Suc(7) i by (simp add: returnsAsIsD)
  have s2: "pop (setIndex c i ?x (push (SegNum i) st)) = ?st2"
    using Suc(5) Suc(6) by (simp add: setIndex_def pop_def push_def)
  have step: "arrayElems cr [i..<length elems] (Ref a) c st
                = arrayElems cr [Suc i..<length elems] (Ref a) c ?st2"
    using i gi r s2 by (simp add: upt_conv_Cons)
  have "arrayElems cr [Suc i..<length elems] (Ref a) c ?st2
          = (Inr (), ?st2\<lparr>heap := (heap ?st2)[c := HArr ((done @ [?x]) @ drop (Suc i) elems)]\<rparr>)"
  proof (rule Suc(1))
    show "n = length elems - Suc i" using Suc(2) by simp
    show "lookup (heap ?st2) a = Some (HArr elems)" using Suc(3) Suc(4) by (simp add: lookup_update)
    show "a \<noteq> c" by (rule Suc(4))
    show "lookup (heap ?st2) c = Some (HArr (done @ [?x]))"
      using Suc(5) by (simp add: lookup_update_same)
    show "length (done @ [?x]) = Suc i" using Suc(6) by simp
    show "\<forall>x\<in>set elems. returnsAsIs cr x" by (rule Suc(7))
  qed
  then show ?case
    using step i by (simp add: Cons_nth_drop_Suc)
qed

text \<open>The same for the loop of the dynamic-map transformer, over the properties \<open>rest\<close>.\<close>

lemma indexedProps_asIs:
  assumes "lookup (heap st) a = Some (HObj props)" and "a \<noteq> c"
    and "lookup (heap st) c = Some (HObj done)" and "props = done @ rest"
    and "distinct (map fst props)"
    and "\<forall>kx\<in>set props. returnsAsIs cr (snd kx)"
  shows "indexedProps cr (map fst rest) (Ref a) c st
           = (Inr (), st\<lparr>heap := (heap st)[c := HObj props]\<rparr>)"
  using assms
proof (induction rest arbitrary: "done" st)
  case Nil
  then show ?case by (simp add: heap_update_id)
next
  case (Cons kx rest)
  obtain k x where kx: "kx = (k, x)" by (cases kx)
  let ?st2 = "st\<lparr>heap := (heap st)[c := HObj (done @ [(k, x)])]\<rparr>"
  have mem: "(k, x) \<in> set props" using Cons(5) kx by simp
  have "map_of props k = Some x" using Cons(6) mem by simp
  then have gp: "getProp (heap st) (Ref a) k = x" using Cons(2) by (simp add: getProp_def)
  have r: "performPropRule x cr (push (SegStr k) st) = (Inr x, push (SegStr k) st)"
    using Cons(7) mem by (auto simp: returnsAsIsD)
  have fresh: "k \<notin> fst ` set done" using Cons(5) Cons(6) kx by auto
  have s2: "pop (setProp c k x (push (SegStr k) st)) = ?st2"
    using Cons(4) fresh by (simp add: setProp_def pop_def push_def upsert_fresh)
  have step: "indexedProps cr (map fst (kx # rest)) (Ref a) c st
                = indexedProps cr (map fst rest) (Ref a) c ?st2"
    using kx gp r s2 by simp
  have "indexedProps cr (map fst rest) (Ref a) c ?st2
          = (Inr (), ?st2\<lparr>heap := (heap ?st2)[c := HObj props]\<rparr>)"
  proof (rule Cons(1))
    show "lookup (heap ?st2) a = Some (HObj props)" using Cons(2) Cons(3) by (simp add: lookup_update)
    show "a \<noteq> c" by (rule Cons(3))
    show "lookup (heap ?st2) c = Some (HObj (done @ [(k, x)]))"
      using Cons(4) by (simp add: lookup_update_same)
    show "props = (done @ [(k, x)]) @ rest" using Cons(5) kx by simp
    show "distinct (map fst props)" by (rule Cons(6))
    show "\<forall>kx\<in>set props. returnsAsIs cr (snd kx)" by (rule Cons(7))
  qed
  then show ?case using step by simp
qed

text \<open>
  The loop of the object transformer, over the declared properties \<open>rest\<close>; \<open>g\<close> is the
  read \<^verbatim>\<open>obj[key]\<close> on the input.
\<close>

lemma objectProps_asIs:
  assumes "\<forall>k. getProp (heap st) (Ref a) k = g k" and "a \<noteq> c"
    and "lookup (heap st) c = Some (HObj (map (\<lambda>kp. (fst kp, g (fst kp))) done))"
    and "distinct (map fst (done @ rest))"
    and "\<forall>kp\<in>set rest. returnsAsIs (snd kp) (g (fst kp))"
  shows "objectProps rest (Ref a) c st
           = (Inr (), st\<lparr>heap := (heap st)[c := HObj (map (\<lambda>kp. (fst kp, g (fst kp)))
                                                          (done @ rest))]\<rparr>)"
  using assms
proof (induction rest arbitrary: "done" st)
  case Nil
  then show ?case by (simp add: heap_update_id)
next
  case (Cons kp rest)
  obtain k pr where kp: "kp = (k, pr)" by (cases kp)
  let ?f = "\<lambda>kp. (fst kp, g (fst kp))"
  let ?st2 = "st\<lparr>heap := (heap st)[c := HObj (map ?f (done @ [kp]))]\<rparr>"
  have gp: "getProp (heap st) (Ref a) k = g k" using Cons(2) by simp
  have r: "performPropRule (g k) pr (push (SegStr k) st) = (Inr (g k), push (SegStr k) st)"
    using Cons(6) kp by (simp add: returnsAsIsD)
  have fresh: "k \<notin> fst ` set (map ?f done)" using Cons(5) kp by (auto simp: image_iff)
  have s2: "pop (setProp c k (g k) (push (SegStr k) st)) = ?st2"
    using Cons(4) fresh kp by (simp add: setProp_def pop_def push_def upsert_fresh)
  have step: "objectProps (kp # rest) (Ref a) c st = objectProps rest (Ref a) c ?st2"
    using kp gp r s2 by simp
  have "objectProps rest (Ref a) c ?st2
          = (Inr (), ?st2\<lparr>heap := (heap ?st2)[c := HObj (map ?f ((done @ [kp]) @ rest))]\<rparr>)"
  proof (rule Cons(1))
    show "\<forall>k. getProp (heap ?st2) (Ref a) k = g k"
      using Cons(2) Cons(3) by (simp add: getProp_update)
    show "a \<noteq> c" by (rule Cons(3))
    show "lookup (heap ?st2) c = Some (HObj (map ?f (done @ [kp])))"
      using Cons(4) by (simp add: lookup_update_same)
    show "distinct (map fst ((done @ [kp]) @ rest))" using Cons(5) by simp
    show "\<forall>kp\<in>set rest. returnsAsIs (snd kp) (g (fst kp))" using Cons(6) by simp
  qed
  then show ?case using step by simp
qed

lemma heap_alloc_update:
  "(st\<lparr>heap := heap st @ [x]\<rparr>)\<lparr>heap := (heap st @ [x])[length (heap st) := y]\<rparr>
     = st\<lparr>heap := heap st @ [y]\<rparr>"
  by simp

lemma process_array_asIs:
  assumes "lookup (heap st) a = Some (HArr elems)"
    and "\<forall>x\<in>set elems. returnsAsIs cr x"
  shows "process (ArrayTransformer cr) (Ref a) st
           = (Inr (Ref (length (heap st))), st\<lparr>heap := heap st @ [HArr elems]\<rparr>)"
proof -
  let ?st1 = "st\<lparr>heap := heap st @ [HArr []]\<rparr>"
  have a: "a < length (heap st)" using lookup_SomeD [OF assms(1)] by simp
  have "arrayElems cr [0..<length elems] (Ref a) (length (heap st)) ?st1
          = (Inr (), ?st1\<lparr>heap := (heap ?st1)[length (heap st) := HArr ([] @ drop 0 elems)]\<rparr>)"
    by (rule arrayElems_asIs) (use assms a in \<open>simp_all add: lookup_def nth_append\<close>)
  then show ?thesis
    using assms(1) a
    by (simp add: instanceofArray_def alloc_def arrayLength_def)
qed

lemma process_indexed_asIs:
  assumes "lookup (heap st) a = Some (HObj props)" and "distinct (map fst props)"
    and "\<forall>kx\<in>set props. returnsAsIs cr (snd kx)"
  shows "process (IndexedObjectTransformer cr) (Ref a) st
           = (Inr (Ref (length (heap st))), st\<lparr>heap := heap st @ [HObj props]\<rparr>)"
proof -
  let ?st1 = "st\<lparr>heap := heap st @ [HObj []]\<rparr>"
  have a: "a < length (heap st)" using lookup_SomeD [OF assms(1)] by simp
  have "indexedProps cr (map fst props) (Ref a) (length (heap st)) ?st1
          = (Inr (), ?st1\<lparr>heap := (heap ?st1)[length (heap st) := HObj props]\<rparr>)"
    by (rule indexedProps_asIs [where ?done = "[]"])
      (use assms a in \<open>simp_all add: lookup_def nth_append\<close>)
  then show ?thesis
    using assms(1) a
    by (simp add: instanceofObject_def alloc_def keysOf_def)
qed

lemma process_object_asIs:
  assumes "a < length (heap st)"
    and "\<forall>k\<in>set (keysOf (heap st) (Ref a)). propRuleTruthy ps k"
    and "distinct (map fst ps)"
    and "\<forall>kp\<in>set ps. returnsAsIs (snd kp) (getProp (heap st) (Ref a) (fst kp))"
  shows "process (ObjectTransformer ps) (Ref a) st
           = (Inr (Ref (length (heap st))),
              st\<lparr>heap := heap st
                 @ [HObj (map (\<lambda>kp. (fst kp, getProp (heap st) (Ref a) (fst kp))) ps)]\<rparr>)"
proof -
  let ?g = "getProp (heap st) (Ref a)"
  let ?st1 = "st\<lparr>heap := heap st @ [HObj []]\<rparr>"
  have "find (\<lambda>k. \<not> propRuleTruthy ps k) (keysOf (heap st) (Ref a)) = None"
    using assms(2) by (simp add: find_None_iff)
  then have ck: "checkKeys ps (keysOf (heap st) (Ref a)) st = (Inr (), st)"
    by (simp add: checkKeys_result)
  have g1: "\<forall>k. getProp (heap ?st1) (Ref a) k = ?g k"
    using assms(1) by (simp add: getProp_def)
  have "objectProps ps (Ref a) (length (heap st)) ?st1
          = (Inr (), ?st1\<lparr>heap := (heap ?st1)[length (heap st)
                 := HObj (map (\<lambda>kp. (fst kp, ?g (fst kp))) ([] @ ps))]\<rparr>)"
    by (rule objectProps_asIs [OF g1]) (use assms in \<open>simp_all add: lookup_def\<close>)
  then show ?thesis
    using ck by (simp add: instanceofObject_def alloc_def)
qed

lemma run_constructor:
  assumes "transformer v = Some t" and "extraRules v = []" and "sfunc (rule v) = None"
    and "vfunc (rule v) (heap st) x"
    and "\<And>s. heap s = heap st \<Longrightarrow> process t x s = (Inr y, s\<lparr>heap := h'\<rparr>)"
  shows "run v x scope st = (Inr y, st\<lparr>heap := h'\<rparr>)"
proof -
  have body: "runBody v x s = (Inr y, s\<lparr>heap := h'\<rparr>)" if "heap s = heap st" for s
    using assms that by (simp add: runBody_def performRule_no_sanitizer)
  show ?thesis
    by (simp add: run_runBody body pop_push_heap)
qed

lemma run_forArray_asIs:
  assumes "lookup (heap st) a = Some (HArr elems)"
    and "\<forall>x\<in>set elems. returnsAsIs (PValidator v) x"
  shows "run (forArray v) (Ref a) scope st
           = (Inr (Ref (length (heap st))), st\<lparr>heap := heap st @ [HArr elems]\<rparr>)"
proof (rule run_constructor [where t = "ArrayTransformer (PValidator v)"])
  show "vfunc (rule (forArray v)) (heap st) (Ref a)"
    using assms(1) by (simp add: forArray_def instanceofArray_def)
  show "process (ArrayTransformer (PValidator v)) (Ref a) s
          = (Inr (Ref (length (heap st))), s\<lparr>heap := heap st @ [HArr elems]\<rparr>)"
    if "heap s = heap st" for s
    using process_array_asIs [of s a elems "PValidator v"] assms that by simp
qed (simp_all add: forArray_def)

lemma run_forIndexedObject_asIs:
  assumes "lookup (heap st) a = Some (HObj props)" and "distinct (map fst props)"
    and "\<forall>kx\<in>set props. returnsAsIs (PValidator v) (snd kx)"
  shows "run (forIndexedObject v) (Ref a) scope st
           = (Inr (Ref (length (heap st))), st\<lparr>heap := heap st @ [HObj props]\<rparr>)"
proof (rule run_constructor [where t = "IndexedObjectTransformer (PValidator v)"])
  show "vfunc (rule (forIndexedObject v)) (heap st) (Ref a)"
    by (simp add: forIndexedObject_def instanceofObject_def)
  show "process (IndexedObjectTransformer (PValidator v)) (Ref a) s
          = (Inr (Ref (length (heap st))), s\<lparr>heap := heap st @ [HObj props]\<rparr>)"
    if "heap s = heap st" for s
    using process_indexed_asIs [of s a props "PValidator v"] assms that by simp
qed (simp_all add: forIndexedObject_def)

lemma run_object_asIs:
  assumes "a < length (heap st)"
    and "\<forall>k\<in>set (keysOf (heap st) (Ref a)). propRuleTruthy ps k"
    and "distinct (map fst ps)"
    and "\<forall>kp\<in>set ps. returnsAsIs (snd kp) (getProp (heap st) (Ref a) (fst kp))"
  shows "run (object ps) (Ref a) scope st
           = (Inr (Ref (length (heap st))),
              st\<lparr>heap := heap st
                 @ [HObj (map (\<lambda>kp. (fst kp, getProp (heap st) (Ref a) (fst kp))) ps)]\<rparr>)"
proof (rule run_constructor [where t = "ObjectTransformer ps"])
  show "vfunc (rule (object ps)) (heap st) (Ref a)"
    by (simp add: object_def instanceofObject_def)
  show "process (ObjectTransformer ps) (Ref a) s
          = (Inr (Ref (length (heap st))),
             s\<lparr>heap := heap st
                @ [HObj (map (\<lambda>kp. (fst kp, getProp (heap st) (Ref a) (fst kp))) ps)]\<rparr>)"
    if "heap s = heap st" for s
    using process_object_asIs [of a s ps] assms that by simp
qed (simp_all add: object_def)




end
